theory Spec2Isabelle
  imports Main "HOL-Library.Sublist"
begin

section \<open>Strings as the program uses them\<close>

text \<open>
  Documents, markers and payloads are JavaScript strings, modelled as \<open>string\<close>
  (a list of characters); offsets are natural numbers. An offset that the program
  leaves \<open>undefined\<close> is \<open>None\<close>.

  The digest (\<open>crypto.createHash('sha1') ... digest('hex')\<close>) belongs to the
  platform, not to this program: every operation takes it as the parameter
  \<open>sha1_hex\<close>.
\<close>

definition FINGERPRINT_VALUE_IN_HEX_LENGTH :: nat where
  "FINGERPRINT_VALUE_IN_HEX_LENGTH = 40"

definition FINGERPRINT_PLACEHOLDER :: string where
  "FINGERPRINT_PLACEHOLDER = ''%fingerprint%''"

datatype MashState =
    Unmashed
  | BeginTagMissing
  | EndTagMissing
  | SourceTextTampered
  | FingerprintInvalid
  | Mashed

datatype error = AssertionError

text \<open>
  \<open>String.prototype.substring(start, end)\<close>: an undefined start counts as 0, an
  undefined end as the length; both are clamped to the length and swapped when the
  start exceeds the end.
\<close>

definition substring :: "string \<Rightarrow> nat option \<Rightarrow> nat option \<Rightarrow> string" where
  "substring s start end =
     (let a = min (case start of None \<Rightarrow> 0 | Some i \<Rightarrow> i) (length s);
          b = min (case end of None \<Rightarrow> length s | Some j \<Rightarrow> j) (length s)
      in take (max a b - min a b) (drop (min a b) s))"

text \<open>
  \<open>String.prototype.indexOf(searchString, position)\<close>: the least offset at or after
  the (clamped) position where the search string starts, \<open>None\<close> for \<open>-1\<close>. The
  empty search string is found at the clamped position itself.
\<close>

fun indexOf_scan :: "string \<Rightarrow> string \<Rightarrow> nat \<Rightarrow> nat option" where
  "indexOf_scan tag [] k = (if tag = [] then Some k else None)"
| "indexOf_scan tag (c # cs) k =
     (if prefix tag (c # cs) then Some k else indexOf_scan tag cs (Suc k))"

definition indexOf :: "string \<Rightarrow> string \<Rightarrow> nat \<Rightarrow> nat option" where
  "indexOf s tag position =
     (let start = min position (length s) in indexOf_scan tag (drop start s) start)"

text \<open>
  \<open>String.prototype.replace(pattern, replacement)\<close> with a string pattern rewrites
  the first occurrence only. \<open>split_first\<close> cuts a string around the first
  occurrence of the pattern. The program's replacements are a hexadecimal digest and
  a group of the regular expression; neither contains a \<open>$\<close>, so the replacement is
  inserted as it is.
\<close>

fun split_first :: "string \<Rightarrow> string \<Rightarrow> (string \<times> string) option" where
  "split_first pat [] = (if pat = [] then Some ([], []) else None)"
| "split_first pat (c # cs) =
     (if prefix pat (c # cs) then Some ([], drop (length pat) (c # cs))
      else map_option (\<lambda>(pre, post). (c # pre, post)) (split_first pat cs))"

definition replace_first :: "string \<Rightarrow> string \<Rightarrow> string \<Rightarrow> string" where
  "replace_first pat replacement s =
     (case split_first pat s of
        None \<Rightarrow> s
      | Some (pre, post) \<Rightarrow> pre @ replacement @ post)"

section \<open>The end tag as a regular expression\<close>

text \<open>
  The program escapes the end tag, so that each of its characters matches itself,
  and replaces the first placeholder by the group \<open>([0-9a-fA-F]{40})\<close>. A regular
  expression of that shape is a sequence of literal characters and groups of a fixed
  number of hexadecimal digits.
\<close>

datatype regexp_item = Literal char | HexGroup nat

type_synonym regexp = "regexp_item list"

definition is_hex_digit :: "char \<Rightarrow> bool" where
  "is_hex_digit c = (c \<in> set ''0123456789abcdefABCDEF'')"

definition is_lower_hex_digit :: "char \<Rightarrow> bool" where
  "is_lower_hex_digit c = (c \<in> set ''0123456789abcdef'')"

record regexp_match =
  match_index :: nat
  match_text :: string
  match_group1 :: "string option"

text \<open>
  Matching at the start of a text: the matched text and the first group, which is
  \<open>None\<close> (undefined) when the expression has no group.
\<close>

fun match_items :: "regexp \<Rightarrow> string \<Rightarrow> (string \<times> string option) option" where
  "match_items [] s = Some ([], None)"
| "match_items (Literal c # items) s =
     (case s of
        [] \<Rightarrow> None
      | x # xs \<Rightarrow>
          if x = c then map_option (\<lambda>(m, g). (x # m, g)) (match_items items xs)
          else None)"
| "match_items (HexGroup n # items) s =
     (if n \<le> length s \<and> list_all is_hex_digit (take n s)
      then map_option (\<lambda>(m, g). (take n s @ m, Some (take n s)))
             (match_items items (drop n s))
      else None)"

text \<open>The number of characters a match of the expression has.\<close>

fun regexp_width :: "regexp \<Rightarrow> nat" where
  "regexp_width [] = 0"
| "regexp_width (Literal c # items) = Suc (regexp_width items)"
| "regexp_width (HexGroup n # items) = n + regexp_width items"

text \<open>\<open>RegExp.prototype.exec\<close> without the global flag: the leftmost match.\<close>

fun exec_scan :: "regexp \<Rightarrow> string \<Rightarrow> nat \<Rightarrow> regexp_match option" where
  "exec_scan re [] k =
     (case match_items re [] of
        None \<Rightarrow> None
      | Some (m, g) \<Rightarrow> Some \<lparr>match_index = k, match_text = m, match_group1 = g\<rparr>)"
| "exec_scan re (c # cs) k =
     (case match_items re (c # cs) of
        None \<Rightarrow> exec_scan re cs (Suc k)
      | Some (m, g) \<Rightarrow> Some \<lparr>match_index = k, match_text = m, match_group1 = g\<rparr>)"

definition regexp_exec :: "regexp \<Rightarrow> string \<Rightarrow> regexp_match option" where
  "regexp_exec re s = exec_scan re s 0"

definition endTagRegExp :: "string \<Rightarrow> regexp" where
  "endTagRegExp endTag =
     (case split_first FINGERPRINT_PLACEHOLDER endTag of
        None \<Rightarrow> map Literal endTag
      | Some (pre, post) \<Rightarrow>
          map Literal pre @ [HexGroup FINGERPRINT_VALUE_IN_HEX_LENGTH] @ map Literal post)"

section \<open>Occurrences and the mash info\<close>

record occurrence =
  index :: nat
  endIndex :: nat

record end_occurrence = occurrence +
  fingerprint :: "string option"

record MashInfo =
  state :: MashState
  beginTagIndex :: "nat option"
  endOfBeginTagIndex :: "nat option"
  endTagIndex :: "nat option"
  endOfEndTagIndex :: "nat option"

text \<open>
  \<open>createInfo\<close>: \<open>occ && occ.index\<close> is undefined when the occurrence is.
\<close>

definition createInfo ::
  "MashState \<Rightarrow> occurrence option \<Rightarrow> end_occurrence option \<Rightarrow> MashInfo" where
  "createInfo st beginTagOccurrence endTagOccurrence =
     \<lparr>state = st,
      beginTagIndex = map_option index beginTagOccurrence,
      endOfBeginTagIndex = map_option endIndex beginTagOccurrence,
      endTagIndex = map_option index endTagOccurrence,
      endOfEndTagIndex = map_option endIndex endTagOccurrence\<rparr>"

text \<open>
  One step of each generator: the occurrence it yields when resumed with its
  variable \<open>index\<close> at the given value, or \<open>None\<close> when it is exhausted. After the
  yield, the begin tag generator resumes at \<open>index + beginTag.length\<close>, which is the
  yielded \<open>endIndex\<close>, and the end tag generator at the yielded \<open>endIndex\<close>.
\<close>

definition beginTagOccurrenceIterator :: "string \<Rightarrow> string \<Rightarrow> nat \<Rightarrow> occurrence option" where
  "beginTagOccurrenceIterator destinationText beginTag i =
     (case indexOf destinationText beginTag i of
        None \<Rightarrow> None
      | Some found \<Rightarrow> Some \<lparr>index = found, endIndex = found + length beginTag\<rparr>)"

definition endTagOccurrenceIterator :: "regexp \<Rightarrow> string \<Rightarrow> nat \<Rightarrow> end_occurrence option" where
  "endTagOccurrenceIterator re destinationText i =
     (case regexp_exec re (substring destinationText (Some i) None) of
        None \<Rightarrow> None
      | Some m \<Rightarrow>
          Some \<lparr>index = i + match_index m,
                endIndex = i + match_index m + length (match_text m),
                fingerprint = match_group1 m\<rparr>)"

section \<open>Fingerprint and splice\<close>

definition fingerprint_of :: "(string \<Rightarrow> string) \<Rightarrow> string \<Rightarrow> string" where
  "fingerprint_of sha1_hex text = sha1_hex text"

definition insertText ::
  "(string \<Rightarrow> string) \<Rightarrow> string \<Rightarrow> nat option \<Rightarrow> string \<Rightarrow> string \<Rightarrow> string \<Rightarrow> string" where
  "insertText sha1_hex destinationText insertionIndex beginTag sourceText endTag =
     substring destinationText (Some 0) insertionIndex @
     beginTag @
     sourceText @
     replace_first FINGERPRINT_PLACEHOLDER (fingerprint_of sha1_hex sourceText) endTag @
     substring destinationText insertionIndex None"

definition appendText ::
  "(string \<Rightarrow> string) \<Rightarrow> string \<Rightarrow> string \<Rightarrow> string \<Rightarrow> string \<Rightarrow> string" where
  "appendText sha1_hex destinationText beginTag sourceText endTag =
     insertText sha1_hex destinationText (Some (length destinationText))
       beginTag sourceText endTag"

section \<open>The scan\<close>

text \<open>The three variables the scan keeps across both loops.\<close>

record scan =
  firstBeginTagOccurrence :: "occurrence option"
  firstEndTagOccurrence :: "end_occurrence option"
  firstInvalidState :: MashState

definition sourceTextTampered :: "string option \<Rightarrow> string \<Rightarrow> bool" where
  "sourceTextTampered sourceText potentialSourceText =
     (case sourceText of
        Some s \<Rightarrow> s \<noteq> potentialSourceText
      | None \<Rightarrow> False)"

definition fingerprintInvalid ::
  "(string \<Rightarrow> string) \<Rightarrow> end_occurrence \<Rightarrow> string \<Rightarrow> bool" where
  "fingerprintInvalid sha1_hex endTagOccurrence potentialSourceText =
     (fingerprint endTagOccurrence \<noteq> Some (fingerprint_of sha1_hex potentialSourceText))"

definition potentialSourceText :: "string \<Rightarrow> occurrence \<Rightarrow> end_occurrence \<Rightarrow> string" where
  "potentialSourceText destinationText beginTagOccurrence endTagOccurrence =
     substring destinationText (Some (endIndex beginTagOccurrence))
       (Some (index endTagOccurrence))"

definition grabFirstEnd :: "end_occurrence \<Rightarrow> scan \<Rightarrow> scan" where
  "grabFirstEnd endTagOccurrence sc =
     (if firstEndTagOccurrence sc = None
      then sc\<lparr>firstEndTagOccurrence := Some endTagOccurrence\<rparr> else sc)"

definition grabFirstBegin :: "occurrence \<Rightarrow> scan \<Rightarrow> scan" where
  "grabFirstBegin beginTagOccurrence sc =
     (if firstBeginTagOccurrence sc = None
      then sc\<lparr>firstBeginTagOccurrence := Some beginTagOccurrence\<rparr> else sc)"

definition grabFirstInvalid :: "bool \<Rightarrow> bool \<Rightarrow> scan \<Rightarrow> scan" where
  "grabFirstInvalid tampered invalid sc =
     (if firstInvalidState sc = Unmashed
      then (if tampered then sc\<lparr>firstInvalidState := SourceTextTampered\<rparr>
            else if invalid then sc\<lparr>firstInvalidState := FingerprintInvalid\<rparr>
            else sc)
      else sc)"

text \<open>
  The inner loop, over the end tag occurrences after one begin tag occurrence. It
  either returns from the whole scan (\<open>Inl\<close>, the mashed info) or falls through with
  the updated variables (\<open>Inr\<close>). A loop that never ends has the value \<open>None\<close>.
\<close>

partial_function (option) endTagLoop ::
  "(string \<Rightarrow> string) \<Rightarrow> string \<Rightarrow> string option \<Rightarrow> regexp \<Rightarrow> occurrence \<Rightarrow> nat \<Rightarrow> scan
     \<Rightarrow> (MashInfo + scan) option" where
  "endTagLoop sha1_hex destinationText sourceText re beginTagOccurrence i sc =
     (case endTagOccurrenceIterator re destinationText i of
        None \<Rightarrow> Some (Inr sc)
      | Some endTagOccurrence \<Rightarrow>
          (let text = potentialSourceText destinationText beginTagOccurrence endTagOccurrence;
               tampered = sourceTextTampered sourceText text;
               invalid = fingerprintInvalid sha1_hex endTagOccurrence text;
               sc' = grabFirstInvalid tampered invalid (grabFirstEnd endTagOccurrence sc)
           in if \<not> tampered \<and> \<not> invalid
              then Some (Inl (createInfo Mashed (Some beginTagOccurrence) (Some endTagOccurrence)))
              else endTagLoop sha1_hex destinationText sourceText re beginTagOccurrence
                     (endIndex endTagOccurrence) sc'))"

text \<open>The outer loop, over the begin tag occurrences.\<close>

partial_function (option) beginTagLoop ::
  "(string \<Rightarrow> string) \<Rightarrow> string \<Rightarrow> string \<Rightarrow> string option \<Rightarrow> regexp \<Rightarrow> nat \<Rightarrow> scan
     \<Rightarrow> (MashInfo + scan) option" where
  "beginTagLoop sha1_hex destinationText beginTag sourceText re i sc =
     (case beginTagOccurrenceIterator destinationText beginTag i of
        None \<Rightarrow> Some (Inr sc)
      | Some beginTagOccurrence \<Rightarrow>
          Option.bind
            (endTagLoop sha1_hex destinationText sourceText re beginTagOccurrence
               (endIndex beginTagOccurrence) (grabFirstBegin beginTagOccurrence sc))
            (\<lambda>r. case r of
                Inl info \<Rightarrow> Some (Inl info)
              | Inr sc' \<Rightarrow>
                  beginTagLoop sha1_hex destinationText beginTag sourceText re
                    (endIndex beginTagOccurrence) sc'))"

declare endTagLoop.simps [code]
declare beginTagLoop.simps [code]

definition getMashInfo ::
  "(string \<Rightarrow> string) \<Rightarrow> string \<Rightarrow> string \<Rightarrow> string option \<Rightarrow> string
     \<Rightarrow> (error + MashInfo) option" where
  "getMashInfo sha1_hex destinationText beginTag sourceText endTag =
     (let re = endTagRegExp endTag in
      case beginTagLoop sha1_hex destinationText beginTag sourceText re 0
             \<lparr>firstBeginTagOccurrence = None, firstEndTagOccurrence = None,
              firstInvalidState = Unmashed\<rparr> of
        None \<Rightarrow> None
      | Some (Inl info) \<Rightarrow> Some (Inr info)
      | Some (Inr sc) \<Rightarrow>
          Some (if firstBeginTagOccurrence sc = None then
                  (if firstEndTagOccurrence sc \<noteq> None then Inl AssertionError
                   else case endTagOccurrenceIterator re destinationText 0 of
                          None \<Rightarrow> Inr (createInfo Unmashed None None)
                        | Some endTagOccurrence \<Rightarrow>
                            Inr (createInfo BeginTagMissing None (Some endTagOccurrence)))
                else if firstEndTagOccurrence sc = None then
                  Inr (createInfo EndTagMissing (firstBeginTagOccurrence sc) None)
                else
                  Inr (createInfo (firstInvalidState sc) (firstBeginTagOccurrence sc)
                         (firstEndTagOccurrence sc))))"

section \<open>The public operations\<close>

text \<open>
  \<open>mash\<close> scans without a source text and dispatches on the state. The two
  assertions after the switch that compare an offset with \<open>-1\<close> cannot fail, an
  offset being a natural number or undefined, and the state there is \<open>Mashed\<close>.
\<close>

definition mash ::
  "(string \<Rightarrow> string) \<Rightarrow> string \<Rightarrow> string \<Rightarrow> string \<Rightarrow> string \<Rightarrow> (error + string) option" where
  "mash sha1_hex destinationText beginTag sourceText endTag =
     (case getMashInfo sha1_hex destinationText beginTag None endTag of
        None \<Rightarrow> None
      | Some (Inl e) \<Rightarrow> Some (Inl e)
      | Some (Inr mashInfo) \<Rightarrow>
          Some (case state mashInfo of
              Unmashed \<Rightarrow>
                Inr (appendText sha1_hex destinationText beginTag sourceText endTag)
            | BeginTagMissing \<Rightarrow>
                Inr (insertText sha1_hex destinationText (endOfEndTagIndex mashInfo)
                       beginTag sourceText endTag)
            | EndTagMissing \<Rightarrow>
                Inr (insertText sha1_hex destinationText (beginTagIndex mashInfo)
                       beginTag sourceText endTag)
            | FingerprintInvalid \<Rightarrow>
                Inr (insertText sha1_hex destinationText (beginTagIndex mashInfo)
                       beginTag sourceText endTag)
            | SourceTextTampered \<Rightarrow> Inl AssertionError
            | Mashed \<Rightarrow>
                (let unsycnedDestinationText =
                       substring destinationText (Some 0) (beginTagIndex mashInfo) @
                       substring destinationText (endOfEndTagIndex mashInfo) None
                 in Inr (insertText sha1_hex unsycnedDestinationText (beginTagIndex mashInfo)
                           beginTag sourceText endTag))))"

definition textIsMashed ::
  "(string \<Rightarrow> string) \<Rightarrow> string \<Rightarrow> string \<Rightarrow> string \<Rightarrow> string \<Rightarrow> (error + bool) option" where
  "textIsMashed sha1_hex destinationText beginTag sourceText endTag =
     (case getMashInfo sha1_hex destinationText beginTag (Some sourceText) endTag of
        None \<Rightarrow> None
      | Some (Inl e) \<Rightarrow> Some (Inl e)
      | Some (Inr mashInfo) \<Rightarrow> Some (Inr (state mashInfo = Mashed)))"

section \<open>A digest to run the operations on\<close>

text \<open>
  The operations are defined for every digest function. To run them on a concrete
  document one is needed: \<open>sha1_excerpt\<close> is SHA-1, in hexadecimal, on the texts
  listed in \<open>sha1_table\<close>. Any other text gets forty zeros, which is not its SHA-1
  digest; the examples below hash listed texts only, or do not depend on the digest
  of the others.
\<close>

definition sha1_table :: "(string \<times> string) list" where
  "sha1_table =
     [('''', ''da39a3ee5e6b4b0d3255bfef95601890afd80709''),
      (''p'', ''516b9783fca517eecbd1d064da2d165310b19759''),
      (''q'', ''22ea1c649c82946aa6e479e1ffd321e4a318b1b0''),
      (''x'', ''11f6ad8ec52a2984abaafd7c3b516503785c2072''),
      (''xy'', ''5f8459982f9f619f4b0d9af2542a2086e56a4bef''),
      (''new'', ''c2a6b03f190dfb2b4aa91f8af8d477a9bc3401dc''),
      (''Some generated text which may change in the future.'', ''104f1998a99b8f46f037cf1200d03622b337e5fd''),
      (''Updated generated text.'', ''6d7dffe0035f820feac7c71ca35eac0357f69670''),
      (''a'', ''86f7e437faa5a7fce15d1ddcb9eaeaea377667b8''),
      (''a<e 22ea1c649c82946aa6e479e1ffd321e4a318b1b0>c'', ''795ae187fc5788822c7df36fc264f7b422d9deb2''),
      (''ax'', ''2a2e1206b4222b0d7cc8c8a1d8b302ee70cfe817''),
      (''p<e 516B9783FCA517EECBD1D064DA2D165310B19759><b>p'', ''2dc83cb08ae51f2092216312174eb75aa30b4a21''),
      (''ab'', ''da23614e02469a0d7c7bd1bdab5c9c474b1904dc''),
      (''old'', ''c00dbbc9dadfbe1e232e93a729dd4752fade0abf''),
      (''Text to be inserted/updated.'', ''092499955aeed30bc7f2e24ad486bdfbdbf504da''),
      (''<begin>Text to be inserted/updated.'', ''b17c3a4ffc1e26456b4a5f88257ac8aef6a9ef1b''),
      (''<begin>Text to be inserted/updated.<end (092499955aeed30bc7f2e24ad486bdfbdbf504da)>'', ''6d258e10e3f54680001344219e31b342dc4ddc87''),
      (''<masher>Text to be inserted/updated.</masher (0000000000000000000000000000000000000000)>'', ''1a986923887fedd664be09bab30f28d0d2f42487''),
      (''<masher>Text to be inserted/updated.'', ''e5d24684b05fa62d4e911de2a4b7818e6516f0c2''),
      (''bax'', ''86b25e064709060267e89dda9583e14416686e17''),
      (''b'', ''e9d71f5ee7c92d6dc9e92ffdad17b8bd49418f98''),
      (''p<e 516b9783fca517eecbd1d064da2d165310b19759>c'', ''f88733f8acf4ae002cbd171f5f7507b4f997c180''),
      (''z<b>u'', ''9bb0adf2c60020f1d30d56349589c996b5cb8309''),
      (''z<b>old'', ''5a6c08c3f7d4517f1fdc67d02be36de69024d9ec''),
      (''u'', ''51e69892ab49df85c6230ccc57f8e1d1606caccc''),
      (''u<e 9bb0adf2c60020f1d30d56349589c996b5cb8309>v'', ''d2fd6f4e58af636a95c02604041bb3770f556ca4''),
      (''z<b>u<e 9bb0adf2c60020f1d30d56349589c996b5cb8309>v'', ''5949929df2af7474feb46d1c00f11cb8a7048b21'')]"

definition sha1_excerpt :: "string \<Rightarrow> string" where
  "sha1_excerpt text =
     (case map_of sha1_table text of
        Some digest \<Rightarrow> digest
      | None \<Rightarrow> replicate 40 CHR ''0'')"

section \<open>The scan as an enumeration of pairs\<close>

text \<open>
  The scan described without loops: the begin tag occurrences of the document, left
  to right, each found by searching from the end of the one before; for each, the
  end tag occurrences after it, found the same way; and the first pair, in that
  order, that passes both checks. A search that advances finds at most as many
  occurrences as the document has offsets, which bounds the enumerations.
\<close>

fun beginTagOccurrences_from :: "nat \<Rightarrow> string \<Rightarrow> string \<Rightarrow> nat \<Rightarrow> occurrence list" where
  "beginTagOccurrences_from 0 doc beginTag i = []"
| "beginTagOccurrences_from (Suc n) doc beginTag i =
     (case beginTagOccurrenceIterator doc beginTag i of
        None \<Rightarrow> []
      | Some b \<Rightarrow> b # beginTagOccurrences_from n doc beginTag (endIndex b))"

definition beginTagOccurrences :: "string \<Rightarrow> string \<Rightarrow> occurrence list" where
  "beginTagOccurrences doc beginTag =
     beginTagOccurrences_from (Suc (length doc)) doc beginTag 0"

fun endTagOccurrences_from :: "nat \<Rightarrow> regexp \<Rightarrow> string \<Rightarrow> nat \<Rightarrow> end_occurrence list" where
  "endTagOccurrences_from 0 re doc i = []"
| "endTagOccurrences_from (Suc n) re doc i =
     (case endTagOccurrenceIterator re doc i of
        None \<Rightarrow> []
      | Some e \<Rightarrow> e # endTagOccurrences_from n re doc (endIndex e))"

definition endTagOccurrences :: "regexp \<Rightarrow> string \<Rightarrow> nat \<Rightarrow> end_occurrence list" where
  "endTagOccurrences re doc i = endTagOccurrences_from (Suc (length doc)) re doc i"

definition candidatePairs ::
  "string \<Rightarrow> string \<Rightarrow> regexp \<Rightarrow> (occurrence \<times> end_occurrence) list" where
  "candidatePairs doc beginTag re =
     concat (map (\<lambda>b. map (Pair b) (endTagOccurrences re doc (endIndex b)))
               (beginTagOccurrences doc beginTag))"

definition pairValid ::
  "(string \<Rightarrow> string) \<Rightarrow> string \<Rightarrow> string option \<Rightarrow> occurrence \<times> end_occurrence \<Rightarrow> bool" where
  "pairValid sha1_hex doc sourceText pair =
     (case pair of (b, e) \<Rightarrow>
        \<not> sourceTextTampered sourceText (potentialSourceText doc b e) \<and>
        \<not> fingerprintInvalid sha1_hex e (potentialSourceText doc b e))"

definition firstValidPair ::
  "(string \<Rightarrow> string) \<Rightarrow> string \<Rightarrow> string \<Rightarrow> string option \<Rightarrow> string
     \<Rightarrow> (occurrence \<times> end_occurrence) option" where
  "firstValidPair sha1_hex doc beginTag sourceText endTag =
     find (pairValid sha1_hex doc sourceText) (candidatePairs doc beginTag (endTagRegExp endTag))"

text \<open>The two loops, run over lists of occurrences.\<close>

fun endTagScan ::
  "(string \<Rightarrow> string) \<Rightarrow> string \<Rightarrow> string option \<Rightarrow> occurrence \<Rightarrow> end_occurrence list
     \<Rightarrow> scan \<Rightarrow> MashInfo + scan" where
  "endTagScan sha1_hex doc sourceText b [] sc = Inr sc"
| "endTagScan sha1_hex doc sourceText b (e # es) sc =
     (if pairValid sha1_hex doc sourceText (b, e)
      then Inl (createInfo Mashed (Some b) (Some e))
      else endTagScan sha1_hex doc sourceText b es
             (grabFirstInvalid (sourceTextTampered sourceText (potentialSourceText doc b e))
                (fingerprintInvalid sha1_hex e (potentialSourceText doc b e))
                (grabFirstEnd e sc)))"

fun beginTagScan ::
  "(string \<Rightarrow> string) \<Rightarrow> string \<Rightarrow> string option \<Rightarrow> regexp \<Rightarrow> occurrence list
     \<Rightarrow> scan \<Rightarrow> MashInfo + scan" where
  "beginTagScan sha1_hex doc sourceText re [] sc = Inr sc"
| "beginTagScan sha1_hex doc sourceText re (b # bs) sc =
     (case endTagScan sha1_hex doc sourceText b (endTagOccurrences re doc (endIndex b))
             (grabFirstBegin b sc) of
        Inl info \<Rightarrow> Inl info
      | Inr sc' \<Rightarrow> beginTagScan sha1_hex doc sourceText re bs sc')"

section \<open>Upper-case fingerprints\<close>

text \<open>The upper-case rendering of a hexadecimal digit.\<close>

definition upper_hex :: "char \<Rightarrow> char" where
  "upper_hex c =
     (if c = CHR ''a'' then CHR ''A''
      else if c = CHR ''b'' then CHR ''B''
      else if c = CHR ''c'' then CHR ''C''
      else if c = CHR ''d'' then CHR ''D''
      else if c = CHR ''e'' then CHR ''E''
      else if c = CHR ''f'' then CHR ''F''
      else c)"

section \<open>End tags that a payload can form\<close>

text \<open>
  Two conditions on a payload \<open>P\<close> followed by its materialised end tag \<open>M\<close>, read
  with the end tag expression. The expression straddles when it matches from an
  offset \<open>s\<close> of \<open>P\<close> and that match, which is as long as \<open>M\<close>, ends beyond \<open>P\<close>,
  across the border between the two. The payload certifies a prefix when an end tag
  matched from an offset of \<open>P\<close> carries the digest of the part of \<open>P\<close> before that
  offset.
\<close>

definition endTagStraddles :: "regexp \<Rightarrow> string \<Rightarrow> string \<Rightarrow> bool" where
  "endTagStraddles re P M =
     (\<exists>s \<in> set [Suc (length P) - length M ..< length P].
        match_items re (drop s (P @ M)) \<noteq> None)"

definition endTagCertifies ::
  "(string \<Rightarrow> string) \<Rightarrow> regexp \<Rightarrow> string \<Rightarrow> string \<Rightarrow> bool" where
  "endTagCertifies sha1_hex re P M =
     (\<exists>s \<in> set [0 ..< length P].
        case match_items re (drop s (P @ M)) of
          Some (m, Some h) \<Rightarrow> h = sha1_hex (take s P)
        | _ \<Rightarrow> False)"

section \<open>Facts about the string operations\<close>

lemma substring_take: "substring s (Some 0) (Some i) = take i s"
  by (simp add: substring_def Let_def min_def)

lemma substring_drop: "substring s (Some i) None = drop i s"
  by (simp add: substring_def Let_def min_def max_def)

lemma substring_between:
  "a \<le> b \<Longrightarrow> substring s (Some a) (Some b) = take (b - a) (drop a s)"
  by (auto simp add: substring_def Let_def min_def max_def)

lemma indexOf_scan_Some:
  "indexOf_scan tag s k = Some r \<Longrightarrow>
     k \<le> r \<and> r - k + length tag \<le> length s \<and> prefix tag (drop (r - k) s) \<and>
     (\<forall>j < r - k. \<not> prefix tag (drop j s))"
proof (induction s arbitrary: k)
  case Nil
  then show ?case by (auto split: if_splits)
next
  case (Cons c cs)
  show ?case
  proof (cases "prefix tag (c # cs)")
    case True
    with Cons.prems show ?thesis using prefix_length_le[OF True] by auto
  next
    case False
    with Cons.prems have r: "indexOf_scan tag cs (Suc k) = Some r" by simp
    from Cons.IH[OF r] have ih: "Suc k \<le> r" "r - Suc k + length tag \<le> length cs"
      "prefix tag (drop (r - Suc k) cs)" "\<forall>j < r - Suc k. \<not> prefix tag (drop j cs)" by auto
    have eq: "r - k = Suc (r - Suc k)" using ih(1) by simp
    have "\<forall>j < r - k. \<not> prefix tag (drop j (c # cs))"
    proof (intro allI impI)
      fix j assume "j < r - k"
      then show "\<not> prefix tag (drop j (c # cs))"
        using False ih(4) eq by (cases j) auto
    qed
    then show ?thesis using ih eq by auto
  qed
qed

lemma indexOf_scan_None:
  "indexOf_scan tag s k = None \<Longrightarrow> \<forall>j \<le> length s. \<not> prefix tag (drop j s)"
proof (induction s arbitrary: k)
  case Nil
  then show ?case by (auto split: if_splits)
next
  case (Cons c cs)
  from Cons.prems have np: "\<not> prefix tag (c # cs)" and r: "indexOf_scan tag cs (Suc k) = None"
    by (auto split: if_splits)
  show ?case
  proof (intro allI impI)
    fix j assume "j \<le> length (c # cs)"
    then show "\<not> prefix tag (drop j (c # cs))"
      using np Cons.IH[OF r] by (cases j) auto
  qed
qed

lemma indexOf_Some:
  assumes "indexOf s tag p = Some r"
  shows "min p (length s) \<le> r" and "r + length tag \<le> length s"
    and "take (length tag) (drop r s) = tag"
    and "\<forall>j. min p (length s) \<le> j \<and> j < r \<longrightarrow> \<not> prefix tag (drop j s)"
proof -
  let ?st = "min p (length s)"
  from assms have sc: "indexOf_scan tag (drop ?st s) ?st = Some r"
    by (simp add: indexOf_def Let_def)
  note f = indexOf_scan_Some[OF sc]
  show "?st \<le> r" using f by simp
  show "r + length tag \<le> length s" using f by auto
  have "prefix tag (drop r s)" using f by auto
  then show "take (length tag) (drop r s) = tag"
    by (auto simp: prefix_def)
  show "\<forall>j. ?st \<le> j \<and> j < r \<longrightarrow> \<not> prefix tag (drop j s)"
  proof (intro allI impI)
    fix j assume j: "?st \<le> j \<and> j < r"
    then have "j - ?st < r - ?st" by auto
    with f have "\<not> prefix tag (drop (j - ?st) (drop ?st s))" by blast
    then show "\<not> prefix tag (drop j s)" using j by simp
  qed
qed

lemma indexOf_None:
  assumes "indexOf s tag p = None"
  shows "\<forall>j. p \<le> j \<and> j \<le> length s \<longrightarrow> \<not> prefix tag (drop j s)"
proof (intro allI impI)
  fix j assume j: "p \<le> j \<and> j \<le> length s"
  let ?st = "min p (length s)"
  from assms have sc: "indexOf_scan tag (drop ?st s) ?st = None"
    by (simp add: indexOf_def Let_def)
  have st: "?st = p" using j by simp
  have "j - p \<le> length (drop p s)" using j by auto
  with indexOf_scan_None[OF sc] st have "\<not> prefix tag (drop (j - p) (drop p s))"
    by simp
  then show "\<not> prefix tag (drop j s)" using j by simp
qed

lemma split_first_Some:
  "split_first pat s = Some (pre, post) \<Longrightarrow> s = pre @ pat @ post"
proof (induction s arbitrary: pre)
  case Nil
  then show ?case by (auto split: if_splits)
next
  case (Cons c cs)
  show ?case
  proof (cases "prefix pat (c # cs)")
    case True
    with Cons.prems show ?thesis by (auto simp: prefix_def)
  next
    case False
    with Cons.prems obtain pre' where "split_first pat cs = Some (pre', post)" "pre = c # pre'"
      by auto
    with Cons.IH show ?thesis by simp
  qed
qed

lemma split_first_None:
  "split_first pat s = None \<Longrightarrow> \<not> prefix pat (drop j s)"
proof (induction s arbitrary: j)
  case Nil
  then show ?case by (auto split: if_splits)
next
  case (Cons c cs)
  then show ?case by (cases j) (auto split: if_splits)
qed

section \<open>Facts about the regular expression\<close>

lemma match_items_prefix:
  "match_items re s = Some (m, g) \<Longrightarrow> prefix m s"
proof (induction re s arbitrary: m g rule: match_items.induct)
  case (1 s)
  then show ?case by simp
next
  case (2 c items s)
  then show ?case by (auto split: list.splits if_splits)
next
  case (3 n items s)
  from "3.prems" obtain m' g' where
    c: "n \<le> length s" and r: "match_items items (drop n s) = Some (m', g')"
    and m: "m = take n s @ m'"
    by (auto split: if_splits)
  from "3.IH"[OF _ r] c "3.prems" have "prefix m' (drop n s)" by (auto split: if_splits)
  then obtain z where "drop n s = m' @ z" by (auto simp: prefix_def)
  then have "s = (take n s @ m') @ z" by (metis append_assoc append_take_drop_id)
  then show ?case unfolding m by (metis prefixI)
qed

lemma match_items_width:
  "match_items re s = Some (m, g) \<Longrightarrow> length m = regexp_width re"
proof (induction re s arbitrary: m g rule: match_items.induct)
  case (1 s)
  then show ?case by simp
next
  case (2 c items s)
  from "2.prems" obtain x xs m' where
    s: "s = x # xs" "x = c" and r: "match_items items xs = Some (m', g)" and m: "m = x # m'"
    by (cases s) (auto split: if_splits)
  from "2.IH"[OF s r] m show ?case by simp
next
  case (3 n items s)
  from "3.prems" obtain m' g' where
    c: "n \<le> length s \<and> list_all is_hex_digit (take n s)"
    and r: "match_items items (drop n s) = Some (m', g')"
    and m: "m = take n s @ m'"
    by (auto split: if_splits)
  from "3.IH"[OF c r] m c show ?case by simp
qed

lemma match_items_literals:
  "match_items (map Literal p @ r) s =
     (if prefix p s
      then map_option (\<lambda>(m, g). (p @ m, g)) (match_items r (drop (length p) s))
      else None)"
proof (induction p arbitrary: s)
  case Nil
  show ?case by (cases "match_items r s") (simp_all add: split_def)
next
  case (Cons c p)
  show ?case
  proof (cases s)
    case Nil
    then show ?thesis by simp
  next
    case (Cons x xs)
    show ?thesis
    proof (cases "x = c")
      case True
      show ?thesis
        by (cases "match_items r (drop (length p) xs)")
           (simp_all add: Cons True Cons.IH[of xs] split_def)
    next
      case False
      then show ?thesis by (simp add: Cons)
    qed
  qed
qed

lemma match_items_endTag:
  "match_items (map Literal pre @ [HexGroup n] @ map Literal post) s =
     (if prefix pre s \<and> n \<le> length (drop (length pre) s) \<and>
         list_all is_hex_digit (take n (drop (length pre) s)) \<and>
         prefix post (drop n (drop (length pre) s))
      then Some (pre @ take n (drop (length pre) s) @ post, Some (take n (drop (length pre) s)))
      else None)"
proof -
  have post: "match_items (map Literal post) t = (if prefix post t then Some (post, None) else None)"
    for t using match_items_literals[of post "[]" t] by simp
  show ?thesis
    by (simp add: match_items_literals[of pre "HexGroup n # map Literal post" s] post)
qed

lemma match_items_literal_only:
  "match_items (map Literal p) s = (if prefix p s then Some (p, None) else None)"
  using match_items_literals[of p "[]" s] by simp

lemma exec_scan_Some:
  "exec_scan re s k = Some m \<Longrightarrow>
     k \<le> match_index m \<and> match_index m - k \<le> length s \<and>
     match_items re (drop (match_index m - k) s) = Some (match_text m, match_group1 m) \<and>
     (\<forall>j < match_index m - k. match_items re (drop j s) = None)"
proof (induction s arbitrary: k)
  case Nil
  then show ?case by (auto split: option.splits)
next
  case (Cons c cs)
  show ?case
  proof (cases "match_items re (c # cs)")
    case (Some a)
    with Cons.prems show ?thesis by (cases a) auto
  next
    case None
    with Cons.prems have r: "exec_scan re cs (Suc k) = Some m" by simp
    note ih = Cons.IH[OF r]
    have eq: "match_index m - k = Suc (match_index m - Suc k)" using ih by linarith
    have "\<forall>j < match_index m - k. match_items re (drop j (c # cs)) = None"
    proof (intro allI impI)
      fix j assume "j < match_index m - k"
      then show "match_items re (drop j (c # cs)) = None"
        using None ih eq by (cases j) auto
    qed
    then show ?thesis using ih eq by auto
  qed
qed

lemma exec_scan_None:
  "exec_scan re s k = None \<Longrightarrow> j \<le> length s \<Longrightarrow> match_items re (drop j s) = None"
proof (induction s arbitrary: k j)
  case Nil
  then show ?case by (auto split: option.splits)
next
  case (Cons c cs)
  then show ?case by (cases j) (auto split: option.splits)
qed

lemma exec_scan_first:
  "match_items re (drop j s) = Some (m, g) \<Longrightarrow> j \<le> length s \<Longrightarrow>
   \<forall>i < j. match_items re (drop i s) = None \<Longrightarrow>
   exec_scan re s k = Some \<lparr>match_index = k + j, match_text = m, match_group1 = g\<rparr>"
proof (induction s arbitrary: k j)
  case Nil
  then show ?case by simp
next
  case (Cons c cs)
  show ?case
  proof (cases j)
    case 0
    with Cons.prems show ?thesis by simp
  next
    case (Suc j')
    with Cons.prems have none: "match_items re (c # cs) = None" by force
    have "\<forall>i < j'. match_items re (drop i cs) = None"
    proof (intro allI impI)
      fix i assume "i < j'"
      then have "Suc i < j" using Suc by simp
      with Cons.prems(3) have "match_items re (drop (Suc i) (c # cs)) = None" by blast
      then show "match_items re (drop i cs) = None" by simp
    qed
    with Cons.IH[of j' "Suc k"] Cons.prems Suc none show ?thesis by simp
  qed
qed

section \<open>Facts about the generators\<close>

lemma endTagOccurrenceIterator_Some:
  assumes "endTagOccurrenceIterator re doc i = Some e" and "i \<le> length doc"
  shows "i \<le> index e" and "endIndex e = index e + regexp_width re"
    and "endIndex e \<le> length doc"
    and "match_items re (drop (index e) doc) =
           Some (take (regexp_width re) (drop (index e) doc), fingerprint e)"
    and "\<forall>j. i \<le> j \<and> j < index e \<longrightarrow> match_items re (drop j doc) = None"
proof -
  from assms(1) obtain m where
    ex: "exec_scan re (drop i doc) 0 = Some m"
    and e: "e = \<lparr>index = i + match_index m,
                endIndex = i + match_index m + length (match_text m),
                fingerprint = match_group1 m\<rparr>"
    by (auto simp: endTagOccurrenceIterator_def regexp_exec_def substring_drop
             split: option.splits)
  from exec_scan_Some[OF ex] have
    le: "match_index m \<le> length (drop i doc)"
    and mi: "match_items re (drop (match_index m) (drop i doc)) =
               Some (match_text m, match_group1 m)"
    and first: "\<forall>j < match_index m. match_items re (drop j (drop i doc)) = None"
    by auto
  have mi': "match_items re (drop (i + match_index m) doc) =
               Some (match_text m, match_group1 m)"
    using mi by (simp add: add.commute)
  have w: "length (match_text m) = regexp_width re"
    by (rule match_items_width[OF mi'])
  have pre: "prefix (match_text m) (drop (i + match_index m) doc)"
    by (rule match_items_prefix[OF mi'])
  then have tk: "take (regexp_width re) (drop (i + match_index m) doc) = match_text m"
    using w by (auto simp: prefix_def)
  show "i \<le> index e" by (simp add: e)
  show "endIndex e = index e + regexp_width re" by (simp add: e w)
  have "length (match_text m) \<le> length (drop (i + match_index m) doc)"
    by (rule prefix_length_le[OF pre])
  then show "endIndex e \<le> length doc" using le assms(2) by (simp add: e)
  show "match_items re (drop (index e) doc) =
          Some (take (regexp_width re) (drop (index e) doc), fingerprint e)"
    by (simp add: e mi' tk)
  show "\<forall>j. i \<le> j \<and> j < index e \<longrightarrow> match_items re (drop j doc) = None"
  proof (intro allI impI)
    fix j assume j: "i \<le> j \<and> j < index e"
    then have "j - i < match_index m" by (auto simp: e)
    with first have "match_items re (drop (j - i) (drop i doc)) = None" by blast
    then show "match_items re (drop j doc) = None" using j by simp
  qed
qed

lemma endTagOccurrenceIterator_None:
  assumes "endTagOccurrenceIterator re doc i = None" and "i \<le> j" and "j \<le> length doc"
  shows "match_items re (drop j doc) = None"
proof -
  from assms(1) have ex: "exec_scan re (drop i doc) 0 = None"
    by (auto simp: endTagOccurrenceIterator_def regexp_exec_def substring_drop
             split: option.splits)
  have "j - i \<le> length (drop i doc)" using assms by auto
  from exec_scan_None[OF ex this] show ?thesis using assms by simp
qed

lemma beginTagOccurrenceIterator_Some:
  assumes "beginTagOccurrenceIterator doc beginTag i = Some b"
  shows "indexOf doc beginTag i = Some (index b)"
    and "endIndex b = index b + length beginTag"
    and "min i (length doc) \<le> index b" and "endIndex b \<le> length doc"
proof -
  from assms obtain r where r: "indexOf doc beginTag i = Some r"
    and b: "b = \<lparr>index = r, endIndex = r + length beginTag\<rparr>"
    by (auto simp: beginTagOccurrenceIterator_def split: option.splits)
  show "indexOf doc beginTag i = Some (index b)" by (simp add: r b)
  show "endIndex b = index b + length beginTag" by (simp add: b)
  show "min i (length doc) \<le> index b" using indexOf_Some(1)[OF r] by (simp add: b)
  show "endIndex b \<le> length doc" using indexOf_Some(2)[OF r] by (simp add: b)
qed

section \<open>What the loops return\<close>

lemma grabFirstEnd_fields:
  "firstBeginTagOccurrence (grabFirstEnd e sc) = firstBeginTagOccurrence sc"
  "firstInvalidState (grabFirstEnd e sc) = firstInvalidState sc"
  "firstEndTagOccurrence (grabFirstEnd e sc) =
     (if firstEndTagOccurrence sc = None then Some e else firstEndTagOccurrence sc)"
  by (simp_all add: grabFirstEnd_def)

lemma grabFirstBegin_fields:
  "firstEndTagOccurrence (grabFirstBegin b sc) = firstEndTagOccurrence sc"
  "firstInvalidState (grabFirstBegin b sc) = firstInvalidState sc"
  "firstBeginTagOccurrence (grabFirstBegin b sc) =
     (if firstBeginTagOccurrence sc = None then Some b else firstBeginTagOccurrence sc)"
  by (simp_all add: grabFirstBegin_def)

lemma grabFirstInvalid_fields:
  "firstBeginTagOccurrence (grabFirstInvalid t v sc) = firstBeginTagOccurrence sc"
  "firstEndTagOccurrence (grabFirstInvalid t v sc) = firstEndTagOccurrence sc"
  "firstInvalidState (grabFirstInvalid t v sc) =
     (if firstInvalidState sc = Unmashed
      then (if t then SourceTextTampered else if v then FingerprintInvalid else Unmashed)
      else firstInvalidState sc)"
  by (simp_all add: grabFirstInvalid_def)

lemma endTagLoop_returns:
  assumes "endTagLoop sha1_hex doc src re b i sc = Some y" and "i \<le> length doc"
  shows "case y of
      Inl info \<Rightarrow>
        (\<exists>e. info = createInfo Mashed (Some b) (Some e) \<and> i \<le> index e \<and>
             index e \<le> endIndex e \<and> endIndex e \<le> length doc)
    | Inr sc' \<Rightarrow>
        firstBeginTagOccurrence sc' = firstBeginTagOccurrence sc \<and>
        (firstEndTagOccurrence sc \<noteq> None \<longrightarrow>
           firstEndTagOccurrence sc' = firstEndTagOccurrence sc) \<and>
        (firstInvalidState sc \<noteq> Mashed \<longrightarrow> firstInvalidState sc' \<noteq> Mashed) \<and>
        (src = None \<longrightarrow> firstInvalidState sc \<noteq> SourceTextTampered \<longrightarrow>
           firstInvalidState sc' \<noteq> SourceTextTampered)"
proof -
  define P where "P = (\<lambda>(sha1_hex :: string \<Rightarrow> string) (doc :: string) src (re :: regexp)
      (b :: occurrence) i (sc :: scan) (y :: MashInfo + scan).
    i \<le> length doc \<longrightarrow>
    (case y of
      Inl info \<Rightarrow>
        (\<exists>e :: end_occurrence. info = createInfo Mashed (Some b) (Some e) \<and> i \<le> index e \<and>
             index e \<le> endIndex e \<and> endIndex e \<le> length doc)
    | Inr sc' \<Rightarrow>
        firstBeginTagOccurrence sc' = firstBeginTagOccurrence sc \<and>
        (firstEndTagOccurrence sc \<noteq> None \<longrightarrow>
           firstEndTagOccurrence sc' = firstEndTagOccurrence sc) \<and>
        (firstInvalidState sc \<noteq> Mashed \<longrightarrow> firstInvalidState sc' \<noteq> Mashed) \<and>
        (src = (None :: string option) \<longrightarrow> firstInvalidState sc \<noteq> SourceTextTampered \<longrightarrow>
           firstInvalidState sc' \<noteq> SourceTextTampered)))"
  from assms(1) have "P sha1_hex doc src re b i sc y"
  proof (induct rule: endTagLoop.raw_induct[rotated 1, consumes 1, case_names step])
    case (step loop sha1_hex doc src re b i sc y)
    note IH = step.hyps(1) and body = step.hyps(2)
    show ?case unfolding P_def
    proof
      assume i: "i \<le> length doc"
      show "case y of
        Inl info \<Rightarrow>
          (\<exists>e. info = createInfo Mashed (Some b) (Some e) \<and> i \<le> index e \<and>
               index e \<le> endIndex e \<and> endIndex e \<le> length doc)
      | Inr sc' \<Rightarrow>
          firstBeginTagOccurrence sc' = firstBeginTagOccurrence sc \<and>
          (firstEndTagOccurrence sc \<noteq> None \<longrightarrow>
             firstEndTagOccurrence sc' = firstEndTagOccurrence sc) \<and>
          (firstInvalidState sc \<noteq> Mashed \<longrightarrow> firstInvalidState sc' \<noteq> Mashed) \<and>
          (src = None \<longrightarrow> firstInvalidState sc \<noteq> SourceTextTampered \<longrightarrow>
             firstInvalidState sc' \<noteq> SourceTextTampered)"
      proof (cases "endTagOccurrenceIterator re doc i")
        case None
        with body show ?thesis by auto
      next
        case (Some e)
        note b = endTagOccurrenceIterator_Some[OF Some i]
        let ?text = "potentialSourceText doc b e"
        let ?t = "sourceTextTampered src ?text"
        let ?v = "fingerprintInvalid sha1_hex e ?text"
        show ?thesis
        proof (cases "\<not> ?t \<and> \<not> ?v")
          case True
          with body Some have "y = Inl (createInfo Mashed (Some b) (Some e))"
            by (simp add: Let_def)
          then show ?thesis using b by auto
        next
          case False
          define sc2 where "sc2 = grabFirstInvalid ?t ?v (grabFirstEnd e sc)"
          from False have c: "(\<not> ?t \<and> \<not> ?v) = False" by simp
          from body have
            rec: "loop sha1_hex doc src re b (endIndex e) sc2 = Some y"
            by (simp add: Some Let_def sc2_def c)
          have src: "src = None \<Longrightarrow> \<not> ?t" by (simp add: sourceTextTampered_def)
          have f1: "firstBeginTagOccurrence sc2 = firstBeginTagOccurrence sc"
            and f2: "firstEndTagOccurrence sc \<noteq> None \<Longrightarrow>
                     firstEndTagOccurrence sc2 = firstEndTagOccurrence sc"
            and f3: "firstInvalidState sc \<noteq> Mashed \<Longrightarrow> firstInvalidState sc2 \<noteq> Mashed"
            and f4: "src = None \<Longrightarrow> firstInvalidState sc \<noteq> SourceTextTampered \<Longrightarrow>
                     firstInvalidState sc2 \<noteq> SourceTextTampered"
            and f5: "firstEndTagOccurrence sc2 \<noteq> None"
            using src
            by (simp_all add: sc2_def grabFirstInvalid_fields grabFirstEnd_fields)
          from IH[OF rec] b(3) have
            post: "case y of
              Inl info \<Rightarrow>
                (\<exists>e'. info = createInfo Mashed (Some b) (Some e') \<and> endIndex e \<le> index e' \<and>
                     index e' \<le> endIndex e' \<and> endIndex e' \<le> length doc)
            | Inr sc' \<Rightarrow>
                firstBeginTagOccurrence sc' = firstBeginTagOccurrence sc2 \<and>
                (firstEndTagOccurrence sc2 \<noteq> None \<longrightarrow>
                   firstEndTagOccurrence sc' = firstEndTagOccurrence sc2) \<and>
                (firstInvalidState sc2 \<noteq> Mashed \<longrightarrow> firstInvalidState sc' \<noteq> Mashed) \<and>
                (src = None \<longrightarrow> firstInvalidState sc2 \<noteq> SourceTextTampered \<longrightarrow>
                   firstInvalidState sc' \<noteq> SourceTextTampered)"
            unfolding P_def by (rule mp)
          show ?thesis
          proof (cases y)
            case (Inl info)
            with post obtain e' where "info = createInfo Mashed (Some b) (Some e')"
              "endIndex e \<le> index e'" "index e' \<le> endIndex e'" "endIndex e' \<le> length doc"
              by auto
            moreover have "i \<le> endIndex e" using b(1,2) by simp
            ultimately show ?thesis using Inl by auto
          next
            case (Inr sc')
            with post f1 f2 f3 f4 f5 show ?thesis by auto
          qed
        qed
      qed
    qed
  qed
  then show ?thesis using assms(2) unfolding P_def by (rule mp)
qed

lemma beginTagLoop_exhausted:
  "beginTagOccurrenceIterator doc beginTag i = None \<Longrightarrow>
   beginTagLoop sha1_hex doc beginTag src re i sc = Some (Inr sc)"
  by (subst beginTagLoop.simps) simp

lemma beginTagLoop_returns:
  assumes "beginTagLoop sha1_hex doc beginTag src re i sc = Some y"
  shows "case y of
      Inl info \<Rightarrow>
        (\<exists>b e. info = createInfo Mashed (Some b) (Some e) \<and>
             endIndex b = index b + length beginTag \<and> endIndex b \<le> index e \<and>
             index e \<le> endIndex e \<and> endIndex e \<le> length doc)
    | Inr sc' \<Rightarrow>
        firstBeginTagOccurrence sc' =
          (case firstBeginTagOccurrence sc of
             None \<Rightarrow> beginTagOccurrenceIterator doc beginTag i
           | Some x \<Rightarrow> Some x) \<and>
        (firstInvalidState sc \<noteq> Mashed \<longrightarrow> firstInvalidState sc' \<noteq> Mashed) \<and>
        (src = None \<longrightarrow> firstInvalidState sc \<noteq> SourceTextTampered \<longrightarrow>
           firstInvalidState sc' \<noteq> SourceTextTampered)"
proof -
  define P where "P = (\<lambda>(sha1_hex :: string \<Rightarrow> string) (doc :: string) beginTag src
      (re :: regexp) i (sc :: scan) (y :: MashInfo + scan).
    (case y of
      Inl info \<Rightarrow>
        (\<exists>(b :: occurrence) (e :: end_occurrence). info = createInfo Mashed (Some b) (Some e) \<and>
             endIndex b = index b + length beginTag \<and> endIndex b \<le> index e \<and>
             index e \<le> endIndex e \<and> endIndex e \<le> length doc)
    | Inr sc' \<Rightarrow>
        firstBeginTagOccurrence sc' =
          (case firstBeginTagOccurrence sc of
             None \<Rightarrow> beginTagOccurrenceIterator doc beginTag i
           | Some x \<Rightarrow> Some x) \<and>
        (firstInvalidState sc \<noteq> Mashed \<longrightarrow> firstInvalidState sc' \<noteq> Mashed) \<and>
        (src = (None :: string option) \<longrightarrow> firstInvalidState sc \<noteq> SourceTextTampered \<longrightarrow>
           firstInvalidState sc' \<noteq> SourceTextTampered)))"
  from assms have "P sha1_hex doc beginTag src re i sc y"
  proof (induct rule: beginTagLoop.raw_induct[rotated 1, consumes 1, case_names step])
    case (step loop sha1_hex doc beginTag src re i sc y)
    note IH = step.hyps(1) and body = step.hyps(2)
    show ?case
    proof (cases "beginTagOccurrenceIterator doc beginTag i")
      case None
      with body have "y = Inr sc" by simp
      then show ?thesis by (simp add: P_def None split: option.splits)
    next
      case (Some b)
      note bb = beginTagOccurrenceIterator_Some[OF Some]
      define sc1 where "sc1 = grabFirstBegin b sc"
      from body obtain r where
        inner: "endTagLoop sha1_hex doc src re b (endIndex b) sc1 = Some r"
        and cont: "(case r of Inl info \<Rightarrow> Some (Inl info)
                    | Inr sc' \<Rightarrow> loop sha1_hex doc beginTag src re (endIndex b) sc') = Some y"
        by (auto simp: Some sc1_def bind_eq_Some_conv)
      note ir = endTagLoop_returns[OF inner bb(4)]
      show ?thesis
      proof (cases r)
        case (Inl info)
        with cont have y: "y = Inl info" by simp
        from ir Inl obtain e where "info = createInfo Mashed (Some b) (Some e)"
          "endIndex b \<le> index e" "index e \<le> endIndex e" "endIndex e \<le> length doc"
          by auto
        with bb(2) have "\<exists>b e. info = createInfo Mashed (Some b) (Some e) \<and>
             endIndex b = index b + length beginTag \<and> endIndex b \<le> index e \<and>
             index e \<le> endIndex e \<and> endIndex e \<le> length doc" by blast
        then show ?thesis unfolding P_def y by simp
      next
        case (Inr sc2)
        with cont have rec: "loop sha1_hex doc beginTag src re (endIndex b) sc2 = Some y"
          by simp
        from ir Inr have
          g1: "firstBeginTagOccurrence sc2 = firstBeginTagOccurrence sc1"
          and g3: "firstInvalidState sc1 \<noteq> Mashed \<Longrightarrow> firstInvalidState sc2 \<noteq> Mashed"
          and g4: "src = None \<Longrightarrow> firstInvalidState sc1 \<noteq> SourceTextTampered \<Longrightarrow>
                   firstInvalidState sc2 \<noteq> SourceTextTampered"
          by auto
        have h1: "firstBeginTagOccurrence sc1 =
                    (if firstBeginTagOccurrence sc = None then Some b
                     else firstBeginTagOccurrence sc)"
          and h2: "firstInvalidState sc1 = firstInvalidState sc"
          by (simp_all add: sc1_def grabFirstBegin_fields)
        from IH[OF rec] have post: "P sha1_hex doc beginTag src re (endIndex b) sc2 y" .
        show ?thesis
        proof (cases y)
          case (Inl info)
          with post show ?thesis by (simp add: P_def)
        next
          case (Inr sc')
          with post have
            p1: "firstBeginTagOccurrence sc' =
                   (case firstBeginTagOccurrence sc2 of
                      None \<Rightarrow> beginTagOccurrenceIterator doc beginTag (endIndex b)
                    | Some x \<Rightarrow> Some x)"
            and p3: "firstInvalidState sc2 \<noteq> Mashed \<Longrightarrow> firstInvalidState sc' \<noteq> Mashed"
            and p4: "src = None \<Longrightarrow> firstInvalidState sc2 \<noteq> SourceTextTampered \<Longrightarrow>
                     firstInvalidState sc' \<noteq> SourceTextTampered"
            by (simp_all add: P_def)
          have "firstBeginTagOccurrence sc' =
                  (case firstBeginTagOccurrence sc of
                     None \<Rightarrow> beginTagOccurrenceIterator doc beginTag i
                   | Some x \<Rightarrow> Some x)"
            using p1 g1 h1 Some by (auto split: option.splits)
          then show ?thesis using p3 p4 g3 g4 h2 unfolding P_def Inr by simp
        qed
      qed
    qed
  qed
  then show ?thesis unfolding P_def .
qed

lemma getMashInfo_returns:
  assumes "getMashInfo sha1_hex D B src E = Some r"
  shows "\<exists>info. r = Inr info \<and>
     (src = None \<longrightarrow> state info \<noteq> SourceTextTampered) \<and>
     (state info = Mashed \<longrightarrow>
        (\<exists>b e. beginTagIndex info = Some b \<and> endOfEndTagIndex info = Some e \<and>
               b \<le> e \<and> e \<le> length D)) \<and>
     (state info = EndTagMissing \<or> state info = FingerprintInvalid \<longrightarrow>
        (\<exists>i. indexOf D B 0 = Some i \<and> beginTagIndex info = Some i))"
proof -
  let ?re = "endTagRegExp E"
  let ?sc0 = "\<lparr>firstBeginTagOccurrence = None, firstEndTagOccurrence = None,
               firstInvalidState = Unmashed\<rparr>"
  from assms obtain y where run: "beginTagLoop sha1_hex D B src ?re 0 ?sc0 = Some y"
    by (auto simp: getMashInfo_def Let_def split: option.splits)
  note inv = beginTagLoop_returns[OF run]
  show ?thesis
  proof (cases y)
    case (Inl info)
    with assms run have r: "r = Inr info" by (simp add: getMashInfo_def Let_def)
    from inv Inl obtain b e where
      info: "info = createInfo Mashed (Some b) (Some e)"
      and bnd: "endIndex b = index b + length B" "endIndex b \<le> index e"
        "index e \<le> endIndex e" "endIndex e \<le> length D"
      by auto
    have "index b \<le> endIndex e" using bnd by simp
    with bnd show ?thesis by (simp add: r info createInfo_def)
  next
    case (Inr sc)
    with inv have
      fb: "firstBeginTagOccurrence sc = beginTagOccurrenceIterator D B 0"
      and nm: "firstInvalidState sc \<noteq> Mashed"
      and nt: "src = None \<Longrightarrow> firstInvalidState sc \<noteq> SourceTextTampered"
      by simp_all
    show ?thesis
    proof (cases "beginTagOccurrenceIterator D B 0")
      case None
      from beginTagLoop_exhausted[OF None, of sha1_hex src ?re ?sc0] run Inr
      have "sc = ?sc0" by simp
      with assms run Inr show ?thesis
        by (auto simp: getMashInfo_def Let_def createInfo_def split: option.splits)
    next
      case (Some b)
      note bb = beginTagOccurrenceIterator_Some[OF Some]
      from assms run Inr fb Some have
        r: "r = (if firstEndTagOccurrence sc = None
                 then Inr (createInfo EndTagMissing (Some b) None)
                 else Inr (createInfo (firstInvalidState sc) (Some b)
                        (firstEndTagOccurrence sc)))"
        by (auto simp add: getMashInfo_def Let_def)
      show ?thesis
        using bb(1) nm nt by (simp add: r createInfo_def)
    qed
  qed
qed

section \<open>The splice\<close>

text \<open>
  C4. Splicing at an offset within the document yields the text before the offset,
  the begin tag, the payload, the end tag with its first \<open>%fingerprint%\<close> replaced
  by the digest of the payload, and the text from the offset on. When the end tag
  is \<open>pre @ ''%fingerprint%'' @ post\<close> with no earlier placeholder, the materialised
  end tag is \<open>pre\<close>, the digest, \<open>post\<close>.
\<close>

theorem insertText_splice:
  assumes "i \<le> length D"
  shows "insertText sha1_hex D (Some i) B P E =
           take i D @ B @ P @ replace_first ''%fingerprint%'' (sha1_hex P) E @ drop i D \<and>
         (\<forall>pre post. split_first ''%fingerprint%'' E = Some (pre, post) \<longrightarrow>
            E = pre @ ''%fingerprint%'' @ post \<and>
            replace_first ''%fingerprint%'' (sha1_hex P) E = pre @ sha1_hex P @ post)"
proof -
  have "insertText sha1_hex D (Some i) B P E =
          take i D @ B @ P @ replace_first ''%fingerprint%'' (sha1_hex P) E @ drop i D"
    by (simp add: insertText_def substring_take substring_drop fingerprint_of_def
          FINGERPRINT_PLACEHOLDER_def)
  moreover have "E = pre @ ''%fingerprint%'' @ post \<and>
            replace_first ''%fingerprint%'' (sha1_hex P) E = pre @ sha1_hex P @ post"
    if "split_first ''%fingerprint%'' E = Some (pre, post)" for pre post
    using that split_first_Some[OF that] by (simp add: replace_first_def)
  ultimately show ?thesis by blast
qed

theorem insertText_splice_witness:
  "(5 :: nat) \<le> length ''Hello world'' \<and>
   insertText sha1_excerpt ''Hello world'' (Some 5) ''<b>'' ''xy'' ''<e %fingerprint%>'' =
     ''Hello<b>xy<e 5f8459982f9f619f4b0d9af2542a2086e56a4bef> world'' \<and>
   split_first ''%fingerprint%'' ''<e %fingerprint%>'' = Some (''<e '', ''>'')"
proof -
  have h: "(5 :: nat) \<le> length ''Hello world''" by simp
  have s: "split_first ''%fingerprint%'' ''<e %fingerprint%>'' = Some (''<e '', ''>'')"
    by code_simp
  have d: "sha1_excerpt ''xy'' = ''5f8459982f9f619f4b0d9af2542a2086e56a4bef''"
    by code_simp
  from insertText_splice[OF h, of sha1_excerpt "''<b>''" "''xy''" "''<e %fingerprint%>''"] s d
  show ?thesis by simp
qed

section \<open>The merge, state by state\<close>

text \<open>
  C2. When the scan without a source text finds a mashed block from \<open>b\<close> to \<open>e\<close>,
  the offsets lie within the document in that order, and \<open>mash\<close> returns the
  document with the characters from \<open>b\<close> up to \<open>e\<close> replaced by the new block: the
  text before \<open>b\<close> and the text from \<open>e\<close> on are kept as they are, in their order.
\<close>

theorem mash_replaces_mashed_block:
  assumes "getMashInfo sha1_hex D B None E = Some (Inr info)"
    and "state info = Mashed"
    and "beginTagIndex info = Some b" and "endOfEndTagIndex info = Some e"
  shows "b \<le> e \<and> e \<le> length D \<and>
         mash sha1_hex D B P E =
           Some (Inr (take b D @ B @ P @
                      replace_first ''%fingerprint%'' (sha1_hex P) E @ drop e D))"
proof -
  from getMashInfo_returns[OF assms(1)] assms(2,3,4) have be: "b \<le> e" "e \<le> length D"
    by auto
  then have b: "b \<le> length D" by simp
  have m: "mash sha1_hex D B P E =
             Some (Inr (insertText sha1_hex (take b D @ drop e D) (Some b) B P E))"
    using assms by (simp add: mash_def Let_def substring_take substring_drop)
  have "insertText sha1_hex (take b D @ drop e D) (Some b) B P E =
          take b D @ B @ P @ replace_first ''%fingerprint%'' (sha1_hex P) E @ drop e D"
    using b by (simp add: insertText_def substring_take substring_drop fingerprint_of_def
          FINGERPRINT_PLACEHOLDER_def)
  with m be show ?thesis by simp
qed

theorem mash_replaces_mashed_block_witness:
  "getMashInfo sha1_excerpt ''x<b>p<e 516b9783fca517eecbd1d064da2d165310b19759>y'' ''<b>''
     None ''<e %fingerprint%>'' =
     Some (Inr \<lparr>state = Mashed, beginTagIndex = Some 1, endOfBeginTagIndex = Some 4,
                endTagIndex = Some 5, endOfEndTagIndex = Some 49\<rparr>) \<and>
   mash sha1_excerpt ''x<b>p<e 516b9783fca517eecbd1d064da2d165310b19759>y'' ''<b>''
     ''new'' ''<e %fingerprint%>'' =
     Some (Inr ''x<b>new<e c2a6b03f190dfb2b4aa91f8af8d477a9bc3401dc>y'')"
proof -
  let ?D = "''x<b>p<e 516b9783fca517eecbd1d064da2d165310b19759>y''"
  let ?info = "\<lparr>state = Mashed, beginTagIndex = Some 1, endOfBeginTagIndex = Some 4,
                endTagIndex = Some 5, endOfEndTagIndex = Some 49\<rparr>"
  have h: "getMashInfo sha1_excerpt ?D ''<b>'' None ''<e %fingerprint%>'' = Some (Inr ?info)"
    by code_simp
  have r: "take 1 ?D @ ''<b>'' @ ''new'' @
             replace_first ''%fingerprint%'' (sha1_excerpt ''new'') ''<e %fingerprint%>'' @
             drop 49 ?D = ''x<b>new<e c2a6b03f190dfb2b4aa91f8af8d477a9bc3401dc>y''"
    by code_simp
  from mash_replaces_mashed_block[OF h, of 1 49 "''new''"] h r show ?thesis by simp
qed

text \<open>
  C7. When the scan without a source text ends in the state end-tag-missing or
  fingerprint-invalid, its begin offset is that of the first begin tag of the
  document, and \<open>mash\<close> splices the new block in at that offset: the document from
  that begin tag on follows the new block unchanged.
\<close>

theorem mash_inserts_before_first_begin_tag:
  assumes "getMashInfo sha1_hex D B None E = Some (Inr info)"
    and "state info = EndTagMissing \<or> state info = FingerprintInvalid"
  shows "\<exists>i. indexOf D B 0 = Some i \<and> beginTagIndex info = Some i \<and>
             prefix B (drop i D) \<and>
             mash sha1_hex D B P E =
               Some (Inr (take i D @ B @ P @
                          replace_first ''%fingerprint%'' (sha1_hex P) E @ drop i D))"
proof -
  from getMashInfo_returns[OF assms(1)] assms(2) obtain i where
    i: "indexOf D B 0 = Some i" "beginTagIndex info = Some i"
    by auto
  from indexOf_Some(2,3)[OF i(1)] have le: "i \<le> length D" and tk: "take (length B) (drop i D) = B"
    by simp_all
  have pre: "prefix B (drop i D)" using tk by (metis take_is_prefix)
  have "mash sha1_hex D B P E = Some (Inr (insertText sha1_hex D (Some i) B P E))"
    using assms i by (auto simp add: mash_def)
  moreover have "insertText sha1_hex D (Some i) B P E =
          take i D @ B @ P @ replace_first ''%fingerprint%'' (sha1_hex P) E @ drop i D"
    by (simp add: insertText_def substring_take substring_drop fingerprint_of_def
          FINGERPRINT_PLACEHOLDER_def)
  ultimately show ?thesis using i pre by simp
qed

theorem mash_inserts_before_first_begin_tag_witness:
  "getMashInfo sha1_excerpt ''x<b>p<e 22ea1c649c82946aa6e479e1ffd321e4a318b1b0>y'' ''<b>''
     None ''<e %fingerprint%>'' =
     Some (Inr \<lparr>state = FingerprintInvalid, beginTagIndex = Some 1,
                endOfBeginTagIndex = Some 4, endTagIndex = Some 5,
                endOfEndTagIndex = Some 49\<rparr>) \<and>
   mash sha1_excerpt ''x<b>p<e 22ea1c649c82946aa6e479e1ffd321e4a318b1b0>y'' ''<b>''
     ''new'' ''<e %fingerprint%>'' =
     Some (Inr (''x<b>new<e c2a6b03f190dfb2b4aa91f8af8d477a9bc3401dc>'' @
                ''<b>p<e 22ea1c649c82946aa6e479e1ffd321e4a318b1b0>y''))"
proof -
  let ?D = "''x<b>p<e 22ea1c649c82946aa6e479e1ffd321e4a318b1b0>y''"
  let ?info = "\<lparr>state = FingerprintInvalid, beginTagIndex = Some 1,
                endOfBeginTagIndex = Some 4, endTagIndex = Some 5,
                endOfEndTagIndex = Some 49\<rparr>"
  have h: "getMashInfo sha1_excerpt ?D ''<b>'' None ''<e %fingerprint%>'' = Some (Inr ?info)"
    by code_simp
  have s: "state ?info = EndTagMissing \<or> state ?info = FingerprintInvalid" by simp
  have ix: "indexOf ?D ''<b>'' 0 = Some 1" by code_simp
  have r: "take 1 ?D @ ''<b>'' @ ''new'' @
             replace_first ''%fingerprint%'' (sha1_excerpt ''new'') ''<e %fingerprint%>'' @
             drop 1 ?D =
           ''x<b>new<e c2a6b03f190dfb2b4aa91f8af8d477a9bc3401dc>'' @
           ''<b>p<e 22ea1c649c82946aa6e479e1ffd321e4a318b1b0>y''"
    by code_simp
  from mash_inserts_before_first_begin_tag[OF h s, of "''new''"] h ix r
  show ?thesis by simp
qed

text \<open>
  C8. A scan without a source text never ends in the state source-text-tampered,
  and neither the scan nor \<open>mash\<close> fails an assertion, whatever the document, the
  tags and the payload.
\<close>

theorem scan_without_source_never_tampered:
  "(\<forall>info. getMashInfo sha1_hex D B None E = Some (Inr info) \<longrightarrow>
       state info \<noteq> SourceTextTampered) \<and>
   getMashInfo sha1_hex D B None E \<noteq> Some (Inl AssertionError) \<and>
   mash sha1_hex D B P E \<noteq> Some (Inl AssertionError)"
proof -
  have a: "state info \<noteq> SourceTextTampered"
    if "getMashInfo sha1_hex D B None E = Some (Inr info)" for info
    using getMashInfo_returns[OF that] by simp
  have b: "getMashInfo sha1_hex D B None E \<noteq> Some (Inl AssertionError)"
  proof
    assume "getMashInfo sha1_hex D B None E = Some (Inl AssertionError)"
    from getMashInfo_returns[OF this] show False by simp
  qed
  have "mash sha1_hex D B P E \<noteq> Some (Inl AssertionError)"
  proof
    assume m: "mash sha1_hex D B P E = Some (Inl AssertionError)"
    then obtain r where g: "getMashInfo sha1_hex D B None E = Some r"
      by (auto simp: mash_def split: option.splits)
    from getMashInfo_returns[OF g] obtain info where
      r: "r = Inr info" and nt: "state info \<noteq> SourceTextTampered" by auto
    from m g r nt show False
      by (cases "state info") (simp_all add: mash_def Let_def)
  qed
  with a b show ?thesis by blast
qed

theorem scan_without_source_never_tampered_witness:
  "getMashInfo sha1_excerpt ''x<b>p<e 22ea1c649c82946aa6e479e1ffd321e4a318b1b0>y'' ''<b>''
     None ''<e %fingerprint%>'' =
     Some (Inr \<lparr>state = FingerprintInvalid, beginTagIndex = Some 1,
                endOfBeginTagIndex = Some 4, endTagIndex = Some 5,
                endOfEndTagIndex = Some 49\<rparr>) \<and>
   FingerprintInvalid \<noteq> SourceTextTampered \<and>
   getMashInfo sha1_excerpt ''x<b>p<e 22ea1c649c82946aa6e479e1ffd321e4a318b1b0>y'' ''<b>''
     (Some ''p'') ''<e %fingerprint%>'' =
     Some (Inr \<lparr>state = FingerprintInvalid, beginTagIndex = Some 1,
                endOfBeginTagIndex = Some 4, endTagIndex = Some 5,
                endOfEndTagIndex = Some 49\<rparr>) \<and>
   getMashInfo sha1_excerpt ''x<b>p<e 22ea1c649c82946aa6e479e1ffd321e4a318b1b0>y'' ''<b>''
     (Some ''q'') ''<e %fingerprint%>'' =
     Some (Inr \<lparr>state = SourceTextTampered, beginTagIndex = Some 1,
                endOfBeginTagIndex = Some 4, endTagIndex = Some 5,
                endOfEndTagIndex = Some 49\<rparr>)"
proof -
  let ?D = "''x<b>p<e 22ea1c649c82946aa6e479e1ffd321e4a318b1b0>y''"
  let ?info = "\<lparr>state = FingerprintInvalid, beginTagIndex = Some 1,
                endOfBeginTagIndex = Some 4, endTagIndex = Some 5,
                endOfEndTagIndex = Some 49\<rparr>"
  have h: "getMashInfo sha1_excerpt ?D ''<b>'' None ''<e %fingerprint%>'' = Some (Inr ?info)"
    by code_simp
  have p: "getMashInfo sha1_excerpt ?D ''<b>'' (Some ''p'') ''<e %fingerprint%>'' =
             Some (Inr ?info)"
    by code_simp
  have q: "getMashInfo sha1_excerpt ?D ''<b>'' (Some ''q'') ''<e %fingerprint%>'' =
             Some (Inr (?info\<lparr>state := SourceTextTampered\<rparr>))"
    by code_simp
  from scan_without_source_never_tampered[of sha1_excerpt ?D "''<b>''" "''<e %fingerprint%>''"]
  have "state ?info \<noteq> SourceTextTampered" using h by blast
  with h p q show ?thesis by simp
qed

section \<open>The loops enumerate the pairs\<close>

lemma endTagLoop_refines:
  assumes "0 < regexp_width re"
  shows "i \<le> length doc \<Longrightarrow> length doc - i < n \<Longrightarrow>
         endTagLoop sha1_hex doc src re b i sc =
           Some (endTagScan sha1_hex doc src b (endTagOccurrences_from n re doc i) sc)"
proof (induction n arbitrary: i sc)
  case 0
  then show ?case by simp
next
  case (Suc n)
  show ?case
  proof (cases "endTagOccurrenceIterator re doc i")
    case None
    then show ?thesis by (subst endTagLoop.simps) simp
  next
    case (Some e)
    note bnd = endTagOccurrenceIterator_Some[OF Some Suc.prems(1)]
    have adv: "endIndex e \<le> length doc" "length doc - endIndex e < n"
      using bnd(1,2,3) assms Suc.prems by simp_all
    let ?text = "potentialSourceText doc b e"
    let ?sc' = "grabFirstInvalid (sourceTextTampered src ?text)
                  (fingerprintInvalid sha1_hex e ?text) (grabFirstEnd e sc)"
    show ?thesis
    proof (cases "pairValid sha1_hex doc src (b, e)")
      case True
      then show ?thesis
        by (subst endTagLoop.simps) (simp add: Some pairValid_def Let_def)
    next
      case False
      have "endTagLoop sha1_hex doc src re b i sc =
              endTagLoop sha1_hex doc src re b (endIndex e) ?sc'"
        using False by (subst endTagLoop.simps) (auto simp add: Some pairValid_def Let_def)
      with Suc.IH[OF adv, of ?sc'] False show ?thesis by (simp add: Some)
    qed
  qed
qed

lemma beginTagLoop_refines:
  assumes "beginTag \<noteq> []" and "0 < regexp_width re"
  shows "i \<le> length doc \<Longrightarrow> length doc - i < n \<Longrightarrow>
         beginTagLoop sha1_hex doc beginTag src re i sc =
           Some (beginTagScan sha1_hex doc src re
                   (beginTagOccurrences_from n doc beginTag i) sc)"
proof (induction n arbitrary: i sc)
  case 0
  then show ?case by simp
next
  case (Suc n)
  show ?case
  proof (cases "beginTagOccurrenceIterator doc beginTag i")
    case None
    then show ?thesis by (subst beginTagLoop.simps) simp
  next
    case (Some b)
    note bnd = beginTagOccurrenceIterator_Some[OF Some]
    have ib: "i \<le> index b" using bnd(3) Suc.prems(1) by simp
    have pos: "0 < length beginTag" using assms(1) by simp
    have adv: "endIndex b \<le> length doc" "length doc - endIndex b < n"
      using ib pos bnd(2,4) Suc.prems by linarith+
    have inner: "endTagLoop sha1_hex doc src re b (endIndex b) (grabFirstBegin b sc) =
             Some (endTagScan sha1_hex doc src b (endTagOccurrences re doc (endIndex b))
                     (grabFirstBegin b sc))"
      unfolding endTagOccurrences_def
      by (rule endTagLoop_refines[OF assms(2) adv(1)]) simp
    show ?thesis
    proof (cases "endTagScan sha1_hex doc src b (endTagOccurrences re doc (endIndex b))
                    (grabFirstBegin b sc)")
      case (Inl info)
      then show ?thesis
        by (subst beginTagLoop.simps) (simp add: Some inner)
    next
      case (Inr sc')
      have "beginTagLoop sha1_hex doc beginTag src re i sc =
              beginTagLoop sha1_hex doc beginTag src re (endIndex b) sc'"
        by (subst beginTagLoop.simps) (simp add: Some inner Inr)
      with Suc.IH[OF adv, of sc'] Inr show ?thesis by (simp add: Some)
    qed
  qed
qed

lemma regexp_width_append:
  "regexp_width (r1 @ r2) = regexp_width r1 + regexp_width r2"
  by (induction r1 rule: regexp_width.induct) simp_all

lemma regexp_width_literals: "regexp_width (map Literal p) = length p"
  by (induction p) simp_all

lemma regexp_width_endTagRegExp:
  "endTag \<noteq> [] \<Longrightarrow> 0 < regexp_width (endTagRegExp endTag)"
  by (auto simp: endTagRegExp_def regexp_width_append regexp_width_literals
        FINGERPRINT_VALUE_IN_HEX_LENGTH_def split: option.splits)

lemma find_pairs_of_one:
  "find P (map (Pair b) es) = map_option (Pair b) (find (\<lambda>e. P (b, e)) es)"
  by (induction es) simp_all

lemma find_in_append:
  "find P (xs @ ys) = (case find P xs of None \<Rightarrow> find P ys | Some x \<Rightarrow> Some x)"
  by (induction xs) simp_all

lemma endTagScan_valid:
  "find (\<lambda>e. pairValid sha1_hex doc src (b, e)) es = Some e \<Longrightarrow>
   endTagScan sha1_hex doc src b es sc = Inl (createInfo Mashed (Some b) (Some e))"
  by (induction es arbitrary: sc) (auto split: if_splits)

lemma endTagScan_invalid:
  "find (\<lambda>e. pairValid sha1_hex doc src (b, e)) es = None \<Longrightarrow>
   \<exists>sc'. endTagScan sha1_hex doc src b es sc = Inr sc'"
  by (induction es arbitrary: sc) (auto split: if_splits)

lemma beginTagScan_valid:
  "find (pairValid sha1_hex doc src)
     (concat (map (\<lambda>b. map (Pair b) (endTagOccurrences re doc (endIndex b))) bs)) = Some (b, e) \<Longrightarrow>
   beginTagScan sha1_hex doc src re bs sc = Inl (createInfo Mashed (Some b) (Some e))"
proof (induction bs arbitrary: sc)
  case Nil
  then show ?case by simp
next
  case (Cons b' bs)
  let ?es = "endTagOccurrences re doc (endIndex b')"
  show ?case
  proof (cases "find (\<lambda>e. pairValid sha1_hex doc src (b', e)) ?es")
    case None
    from endTagScan_invalid[OF None] obtain sc' where
      sc': "endTagScan sha1_hex doc src b' ?es (grabFirstBegin b' sc) = Inr sc'" by blast
    from Cons.prems None have
      "find (pairValid sha1_hex doc src)
         (concat (map (\<lambda>b. map (Pair b) (endTagOccurrences re doc (endIndex b))) bs)) =
       Some (b, e)"
      by (simp add: find_in_append find_pairs_of_one)
    from Cons.IH[OF this] sc' show ?thesis by simp
  next
    case (Some e')
    with Cons.prems have "b = b'" "e = e'"
      by (simp_all add: find_in_append find_pairs_of_one)
    with endTagScan_valid[OF Some] show ?thesis by simp
  qed
qed

lemma beginTagScan_invalid:
  "find (pairValid sha1_hex doc src)
     (concat (map (\<lambda>b. map (Pair b) (endTagOccurrences re doc (endIndex b))) bs)) = None \<Longrightarrow>
   \<exists>sc'. beginTagScan sha1_hex doc src re bs sc = Inr sc'"
proof (induction bs arbitrary: sc)
  case Nil
  then show ?case by simp
next
  case (Cons b' bs)
  let ?es = "endTagOccurrences re doc (endIndex b')"
  from Cons.prems have
    n1: "find (\<lambda>e. pairValid sha1_hex doc src (b', e)) ?es = None"
    and n2: "find (pairValid sha1_hex doc src)
         (concat (map (\<lambda>b. map (Pair b) (endTagOccurrences re doc (endIndex b))) bs)) = None"
    by (auto simp add: find_in_append find_pairs_of_one split: option.splits)
  from endTagScan_invalid[OF n1] obtain sc' where
    sc': "endTagScan sha1_hex doc src b' ?es (grabFirstBegin b' sc) = Inr sc'" by blast
  from Cons.IH[OF n2] sc' show ?case by simp
qed

lemma getMashInfo_scan:
  assumes "beginTag \<noteq> []" and "endTag \<noteq> []"
  shows "beginTagLoop sha1_hex doc beginTag src (endTagRegExp endTag) 0 sc =
           Some (beginTagScan sha1_hex doc src (endTagRegExp endTag)
                   (beginTagOccurrences doc beginTag) sc)"
  unfolding beginTagOccurrences_def
  by (rule beginTagLoop_refines[OF assms(1) regexp_width_endTagRegExp[OF assms(2)]]) simp_all

lemma getMashInfo_total:
  assumes "beginTag \<noteq> []" and "endTag \<noteq> []"
  shows "\<exists>info. getMashInfo sha1_hex doc beginTag src endTag = Some (Inr info)"
proof -
  obtain r where "getMashInfo sha1_hex doc beginTag src endTag = Some r"
    by (cases "beginTagScan sha1_hex doc src (endTagRegExp endTag)
                 (beginTagOccurrences doc beginTag)
                 \<lparr>firstBeginTagOccurrence = None, firstEndTagOccurrence = None,
                  firstInvalidState = Unmashed\<rparr>")
       (simp_all add: getMashInfo_def Let_def getMashInfo_scan[OF assms])
  with getMashInfo_returns[OF this] show ?thesis by auto
qed

section \<open>The first valid pair\<close>

text \<open>
  C3, as the program has it. For a begin tag and an end tag that are not empty, the
  scan returns, and its result is decided by the first pair, in the order of the
  enumeration (begin tag occurrences left to right, for each the end tag occurrences
  after it), that passes both checks: when there is one, the state is mashed and the
  offsets are those of that pair, whose end tag carries the digest of the text
  between the two tags, whatever pairs come later; when there is none, the state is
  not mashed. Pairs made of tag text inside a payload are passed over when they fail
  a check.
\<close>

theorem getMashInfo_first_valid_pair:
  assumes "beginTag \<noteq> []" and "endTag \<noteq> []"
  shows "\<exists>info. getMashInfo sha1_hex doc beginTag src endTag = Some (Inr info) \<and>
     (case firstValidPair sha1_hex doc beginTag src endTag of
        Some (b, e) \<Rightarrow>
          info = createInfo Mashed (Some b) (Some e) \<and>
          fingerprint e = Some (sha1_hex (potentialSourceText doc b e)) \<and>
          (src = None \<or> src = Some (potentialSourceText doc b e))
      | None \<Rightarrow> state info \<noteq> Mashed)"
proof -
  let ?re = "endTagRegExp endTag"
  let ?sc0 = "\<lparr>firstBeginTagOccurrence = None, firstEndTagOccurrence = None,
               firstInvalidState = Unmashed\<rparr>"
  let ?scan = "beginTagScan sha1_hex doc src ?re (beginTagOccurrences doc beginTag) ?sc0"
  note run = getMashInfo_scan[OF assms, of sha1_hex doc src ?sc0]
  from getMashInfo_total[OF assms] obtain info where
    info: "getMashInfo sha1_hex doc beginTag src endTag = Some (Inr info)" by blast
  show ?thesis
  proof (cases "firstValidPair sha1_hex doc beginTag src endTag")
    case None
    then have "find (pairValid sha1_hex doc src)
       (concat (map (\<lambda>b. map (Pair b) (endTagOccurrences ?re doc (endIndex b)))
          (beginTagOccurrences doc beginTag))) = None"
      by (simp add: firstValidPair_def candidatePairs_def)
    from beginTagScan_invalid[OF this] obtain sc' where sc': "?scan = Inr sc'" by blast
    from beginTagLoop_returns[OF run] sc' have nm: "firstInvalidState sc' \<noteq> Mashed" by simp
    from info run sc' nm have "state info \<noteq> Mashed"
      by (auto simp add: getMashInfo_def Let_def createInfo_def split: if_splits option.splits)
    with info None show ?thesis by simp
  next
    case (Some pair)
    obtain b e where pair: "pair = (b, e)" by (cases pair)
    from Some pair have f: "find (pairValid sha1_hex doc src)
       (concat (map (\<lambda>b. map (Pair b) (endTagOccurrences ?re doc (endIndex b)))
          (beginTagOccurrences doc beginTag))) = Some (b, e)"
      by (simp add: firstValidPair_def candidatePairs_def)
    from beginTagScan_valid[OF f] have "?scan = Inl (createInfo Mashed (Some b) (Some e))" .
    with info run have i: "info = createInfo Mashed (Some b) (Some e)"
      by (simp add: getMashInfo_def Let_def)
    from f have "pairValid sha1_hex doc src (b, e)" by (auto simp add: find_Some_iff)
    then have "fingerprint e = Some (sha1_hex (potentialSourceText doc b e))"
      and "src = None \<or> src = Some (potentialSourceText doc b e)"
      by (auto simp: pairValid_def fingerprintInvalid_def fingerprint_of_def
            sourceTextTampered_def split: option.splits)
    with info i Some pair show ?thesis by simp
  qed
qed

theorem getMashInfo_first_valid_pair_witness:
  "''<b>'' \<noteq> [] \<and> ''<e %fingerprint%>'' \<noteq> [] \<and>
   getMashInfo sha1_excerpt
     ''<b>a<e 22ea1c649c82946aa6e479e1ffd321e4a318b1b0>c<e 795ae187fc5788822c7df36fc264f7b422d9deb2>''
     ''<b>'' None ''<e %fingerprint%>'' =
     Some (Inr \<lparr>state = Mashed, beginTagIndex = Some 0, endOfBeginTagIndex = Some 3,
                endTagIndex = Some 49, endOfEndTagIndex = Some 93\<rparr>) \<and>
   firstValidPair sha1_excerpt
     ''<b>a<e 22ea1c649c82946aa6e479e1ffd321e4a318b1b0>c<e 795ae187fc5788822c7df36fc264f7b422d9deb2>''
     ''<b>'' None ''<e %fingerprint%>'' =
     Some (\<lparr>index = 0, endIndex = 3\<rparr>,
           \<lparr>index = 49, endIndex = 93,
            fingerprint = Some ''795ae187fc5788822c7df36fc264f7b422d9deb2''\<rparr>)"
proof -
  let ?D = "''<b>a<e 22ea1c649c82946aa6e479e1ffd321e4a318b1b0>c<e 795ae187fc5788822c7df36fc264f7b422d9deb2>''"
  have b: "''<b>'' \<noteq> []" and e: "''<e %fingerprint%>'' \<noteq> []" by simp_all
  have f: "firstValidPair sha1_excerpt ?D ''<b>'' None ''<e %fingerprint%>'' =
     Some (\<lparr>index = 0, endIndex = 3\<rparr>,
           \<lparr>index = 49, endIndex = 93,
            fingerprint = Some ''795ae187fc5788822c7df36fc264f7b422d9deb2''\<rparr>)"
    by code_simp
  from getMashInfo_first_valid_pair[OF b e, of sha1_excerpt ?D None] f
  show ?thesis by (simp add: createInfo_def)
qed

section \<open>Documents without a begin tag\<close>

lemma endTagRegExp_match:
  assumes "split_first FINGERPRINT_PLACEHOLDER endTag = Some (pre, post)"
  shows "match_items (endTagRegExp endTag) s =
     (if prefix pre s \<and> 40 \<le> length (drop (length pre) s) \<and>
         list_all is_hex_digit (take 40 (drop (length pre) s)) \<and>
         prefix post (drop 40 (drop (length pre) s))
      then Some (pre @ take 40 (drop (length pre) s) @ post,
                 Some (take 40 (drop (length pre) s)))
      else None)"
  using assms match_items_endTag[of pre 40 post s]
  by (simp add: endTagRegExp_def FINGERPRINT_VALUE_IN_HEX_LENGTH_def)

lemma endTagRegExp_match_plain:
  assumes "split_first FINGERPRINT_PLACEHOLDER endTag = None"
  shows "match_items (endTagRegExp endTag) s =
           (if prefix endTag s then Some (endTag, None) else None)"
  using assms by (simp add: endTagRegExp_def match_items_literal_only)

lemma endTagRegExp_materialized:
  assumes "match_items (endTagRegExp endTag) s = Some (t, Some h)"
  shows "t = replace_first FINGERPRINT_PLACEHOLDER h endTag"
proof (cases "split_first FINGERPRINT_PLACEHOLDER endTag")
  case None
  with assms show ?thesis by (simp add: endTagRegExp_match_plain split: if_splits)
next
  case (Some a)
  obtain pre post where a: "a = (pre, post)" by (cases a)
  from assms show ?thesis
    by (auto simp add: endTagRegExp_match[OF Some[unfolded a]] replace_first_def Some a
          split: if_splits)
qed

lemma getMashInfo_no_begin_tag:
  assumes "indexOf D B 0 = None"
  shows "getMashInfo sha1_hex D B src E =
     Some (case endTagOccurrenceIterator (endTagRegExp E) D 0 of
             None \<Rightarrow> Inr (createInfo Unmashed None None)
           | Some e \<Rightarrow> Inr (createInfo BeginTagMissing None (Some e)))"
proof -
  from assms have "beginTagOccurrenceIterator D B 0 = None"
    by (simp add: beginTagOccurrenceIterator_def)
  from beginTagLoop_exhausted[OF this] show ?thesis
    by (simp add: getMashInfo_def Let_def)
qed

text \<open>
  C6. When the document has no begin tag but the end tag expression matches in it,
  the leftmost match starting at \<open>j\<close> and ending at \<open>k\<close>, the scan returns the state
  begin-tag-missing with the offsets \<open>j\<close> and \<open>k\<close> of that match (no match starts
  before \<open>j\<close>), and \<open>mash\<close> splices the new block in at \<open>k\<close>, right after that end
  tag.
\<close>

theorem mash_inserts_after_first_end_tag:
  assumes "indexOf D B 0 = None"
    and "regexp_exec (endTagRegExp E) D = Some m"
    and "j = match_index m" and "k = match_index m + length (match_text m)"
  shows "k \<le> length D \<and>
     match_items (endTagRegExp E) (drop j D) = Some (match_text m, match_group1 m) \<and>
     (\<forall>i<j. match_items (endTagRegExp E) (drop i D) = None) \<and>
     getMashInfo sha1_hex D B src E =
       Some (Inr \<lparr>state = BeginTagMissing, beginTagIndex = None, endOfBeginTagIndex = None,
                  endTagIndex = Some j, endOfEndTagIndex = Some k\<rparr>) \<and>
     mash sha1_hex D B P E =
       Some (Inr (take k D @ B @ P @ replace_first ''%fingerprint%'' (sha1_hex P) E @ drop k D))"
proof -
  let ?re = "endTagRegExp E"
  let ?e = "\<lparr>index = j, endIndex = k, fingerprint = match_group1 m\<rparr>"
  have it: "endTagOccurrenceIterator ?re D 0 = Some ?e"
    using assms(2,3,4) by (simp add: endTagOccurrenceIterator_def substring_drop)
  note f = endTagOccurrenceIterator_Some[OF it]
  have k: "k \<le> length D" using f(3) by simp
  from assms(2) have ex: "exec_scan ?re D 0 = Some m" by (simp add: regexp_exec_def)
  from exec_scan_Some[OF ex] assms(3) have
    mj: "match_items ?re (drop j D) = Some (match_text m, match_group1 m)"
    and first: "\<forall>i<j. match_items ?re (drop i D) = None"
    by simp_all
  have g: "getMashInfo sha1_hex D B src' E =
       Some (Inr \<lparr>state = BeginTagMissing, beginTagIndex = None, endOfBeginTagIndex = None,
                  endTagIndex = Some j, endOfEndTagIndex = Some k\<rparr>)" for src'
    by (simp add: getMashInfo_no_begin_tag[OF assms(1)] it createInfo_def)
  have "mash sha1_hex D B P E = Some (Inr (insertText sha1_hex D (Some k) B P E))"
    by (simp add: mash_def g)
  moreover have "insertText sha1_hex D (Some k) B P E =
      take k D @ B @ P @ replace_first ''%fingerprint%'' (sha1_hex P) E @ drop k D"
    by (simp add: insertText_def substring_take substring_drop fingerprint_of_def
          FINGERPRINT_PLACEHOLDER_def)
  ultimately show ?thesis using k mj first g by simp
qed

theorem mash_inserts_after_first_end_tag_witness:
  "indexOf ''intro <e 22ea1c649c82946aa6e479e1ffd321e4a318b1b0> rest'' ''<b>'' 0 = None \<and>
   regexp_exec (endTagRegExp ''<e %fingerprint%>'')
     ''intro <e 22ea1c649c82946aa6e479e1ffd321e4a318b1b0> rest'' =
     Some \<lparr>match_index = 6, match_text = ''<e 22ea1c649c82946aa6e479e1ffd321e4a318b1b0>'',
           match_group1 = Some ''22ea1c649c82946aa6e479e1ffd321e4a318b1b0''\<rparr> \<and>
   getMashInfo sha1_excerpt ''intro <e 22ea1c649c82946aa6e479e1ffd321e4a318b1b0> rest''
     ''<b>'' None ''<e %fingerprint%>'' =
     Some (Inr \<lparr>state = BeginTagMissing, beginTagIndex = None, endOfBeginTagIndex = None,
                endTagIndex = Some 6, endOfEndTagIndex = Some 50\<rparr>) \<and>
   mash sha1_excerpt ''intro <e 22ea1c649c82946aa6e479e1ffd321e4a318b1b0> rest''
     ''<b>'' ''new'' ''<e %fingerprint%>'' =
     Some (Inr (''intro <e 22ea1c649c82946aa6e479e1ffd321e4a318b1b0>'' @
                ''<b>new<e c2a6b03f190dfb2b4aa91f8af8d477a9bc3401dc>'' @ '' rest''))"
proof -
  let ?D = "''intro <e 22ea1c649c82946aa6e479e1ffd321e4a318b1b0> rest''"
  let ?m = "\<lparr>match_index = 6, match_text = ''<e 22ea1c649c82946aa6e479e1ffd321e4a318b1b0>'',
           match_group1 = Some ''22ea1c649c82946aa6e479e1ffd321e4a318b1b0''\<rparr>"
  have h1: "indexOf ?D ''<b>'' 0 = None" by code_simp
  have h2: "regexp_exec (endTagRegExp ''<e %fingerprint%>'') ?D = Some ?m" by code_simp
  have h3: "6 = match_index ?m" by simp
  have h4: "50 = match_index ?m + length (match_text ?m)" by simp
  have r: "take 50 ?D @ ''<b>'' @ ''new'' @
             replace_first ''%fingerprint%'' (sha1_excerpt ''new'') ''<e %fingerprint%>'' @
             drop 50 ?D =
           ''intro <e 22ea1c649c82946aa6e479e1ffd321e4a318b1b0>'' @
           ''<b>new<e c2a6b03f190dfb2b4aa91f8af8d477a9bc3401dc>'' @ '' rest''"
    by code_simp
  from mash_inserts_after_first_end_tag[OF h1 h2 h3 h4, of sha1_excerpt None "''new''"] h1 h2 r
  show ?thesis by simp
qed

section \<open>Termination\<close>

lemma indexOf_empty: "indexOf D [] i = Some (min i (length D))"
  by (cases "drop (min i (length D)) D") (simp_all add: indexOf_def Let_def)

lemma empty_begin_tag_diverges:
  assumes "i \<le> length D" and "endTagOccurrenceIterator re D i = None"
  shows "beginTagLoop sha1_hex D [] src re i sc = None"
proof (rule ccontr)
  assume "beginTagLoop sha1_hex D [] src re i sc \<noteq> None"
  then obtain y where run: "beginTagLoop sha1_hex D [] src re i sc = Some y" by blast
  define P where "P = (\<lambda>(sha1_hex :: string \<Rightarrow> string) (D :: string) (B :: string)
      (src :: string option) (re :: regexp) i (sc :: scan) (y :: MashInfo + scan).
    \<not> (B = [] \<and> i \<le> length D \<and> endTagOccurrenceIterator re D i = None))"
  from run have "P sha1_hex D [] src re i sc y"
  proof (induct rule: beginTagLoop.raw_induct[rotated 1, consumes 1, case_names step])
    case (step loop sha1_hex D B src re i sc y)
    note IH = step.hyps(1) and body = step.hyps(2)
    show ?case unfolding P_def
    proof
      assume a: "B = [] \<and> i \<le> length D \<and> endTagOccurrenceIterator re D i = None"
      let ?b = "\<lparr>index = i, endIndex = i\<rparr>"
      from a have it: "beginTagOccurrenceIterator D B i = Some ?b"
        by (simp add: beginTagOccurrenceIterator_def indexOf_empty)
      have inner: "endTagLoop sha1_hex D src re ?b i sc' = Some (Inr sc')" for sc'
        using a by (subst endTagLoop.simps) simp
      from body have "loop sha1_hex D B src re i (grabFirstBegin ?b sc) = Some y"
        by (simp add: it inner)
      from IH[OF this] a show False by (simp add: P_def)
    qed
  qed
  with assms show False by (simp add: P_def)
qed

lemma length_beginTagOccurrences_from:
  "length (beginTagOccurrences_from n doc beginTag i) \<le> n"
  by (induction n arbitrary: i) (simp_all split: option.splits)

lemma length_endTagOccurrences_from:
  "length (endTagOccurrences_from n re doc i) \<le> n"
  by (induction n arbitrary: i) (simp_all split: option.splits)

lemma length_pairs:
  "length (concat (map (\<lambda>b. map (Pair b) (endTagOccurrences re doc (endIndex b))) bs))
     \<le> length bs * Suc (length doc)"
proof (induction bs)
  case Nil
  show ?case by simp
next
  case (Cons b bs)
  have "length (endTagOccurrences re doc (endIndex b)) \<le> Suc (length doc)"
    unfolding endTagOccurrences_def by (rule length_endTagOccurrences_from)
  with Cons show ?case by simp
qed

text \<open>
  C9, as the program has it. With a begin tag and an end tag that are not empty,
  the scan, \<open>mash\<close> and \<open>textIsMashed\<close> return, for every document and payload: each
  search then resumes beyond the occurrence found before. The scan examines at most
  one pair for each begin tag occurrence and offset of the document, and there are at
  most as many begin tag occurrences as the document has offsets.
\<close>

theorem scan_returns_for_nonempty_tags:
  assumes "beginTag \<noteq> []" and "endTag \<noteq> []"
  shows "(\<exists>info. getMashInfo sha1_hex doc beginTag src endTag = Some (Inr info)) \<and>
         (\<exists>text. mash sha1_hex doc beginTag payload endTag = Some (Inr text)) \<and>
         (\<exists>mashed. textIsMashed sha1_hex doc beginTag payload endTag = Some (Inr mashed)) \<and>
         length (beginTagOccurrences doc beginTag) \<le> Suc (length doc) \<and>
         length (candidatePairs doc beginTag (endTagRegExp endTag))
           \<le> length (beginTagOccurrences doc beginTag) * Suc (length doc)"
proof -
  from getMashInfo_total[OF assms] obtain info where
    g: "getMashInfo sha1_hex doc beginTag None endTag = Some (Inr info)" by blast
  from getMashInfo_returns[OF g] have nt: "state info \<noteq> SourceTextTampered" by simp
  have m: "\<exists>text. mash sha1_hex doc beginTag payload endTag = Some (Inr text)"
    using nt by (cases "state info") (simp_all add: mash_def g Let_def)
  from getMashInfo_total[OF assms] obtain info' where
    "getMashInfo sha1_hex doc beginTag (Some payload) endTag = Some (Inr info')" by blast
  then have t: "\<exists>mashed. textIsMashed sha1_hex doc beginTag payload endTag = Some (Inr mashed)"
    by (simp add: textIsMashed_def)
  have b: "length (beginTagOccurrences doc beginTag) \<le> Suc (length doc)"
    unfolding beginTagOccurrences_def by (rule length_beginTagOccurrences_from)
  have p: "length (candidatePairs doc beginTag (endTagRegExp endTag))
           \<le> length (beginTagOccurrences doc beginTag) * Suc (length doc)"
    unfolding candidatePairs_def by (rule length_pairs)
  from m t b p getMashInfo_total[OF assms] show ?thesis by blast
qed

theorem scan_returns_for_nonempty_tags_witness:
  "''<b>'' \<noteq> [] \<and> ''<e %fingerprint%>'' \<noteq> [] \<and>
   mash sha1_excerpt ''x<b>p'' ''<b>'' ''new'' ''<e %fingerprint%>'' =
     Some (Inr ''x<b>new<e c2a6b03f190dfb2b4aa91f8af8d477a9bc3401dc><b>p'') \<and>
   textIsMashed sha1_excerpt ''x<b>p'' ''<b>'' ''new'' ''<e %fingerprint%>'' = Some (Inr False) \<and>
   length (beginTagOccurrences ''x<b>p'' ''<b>'') = 1 \<and>
   length (candidatePairs ''x<b>p'' ''<b>'' (endTagRegExp ''<e %fingerprint%>'')) = 0"
proof -
  have b: "''<b>'' \<noteq> []" and e: "''<e %fingerprint%>'' \<noteq> []" by simp_all
  have m: "mash sha1_excerpt ''x<b>p'' ''<b>'' ''new'' ''<e %fingerprint%>'' =
     Some (Inr ''x<b>new<e c2a6b03f190dfb2b4aa91f8af8d477a9bc3401dc><b>p'')"
    by code_simp
  have t: "textIsMashed sha1_excerpt ''x<b>p'' ''<b>'' ''new'' ''<e %fingerprint%>'' =
     Some (Inr False)"
    by code_simp
  have l: "length (beginTagOccurrences ''x<b>p'' ''<b>'') = 1"
    "length (candidatePairs ''x<b>p'' ''<b>'' (endTagRegExp ''<e %fingerprint%>'')) = 0"
    by code_simp+
  from scan_returns_for_nonempty_tags[OF b e, of sha1_excerpt "''x<b>p''" None "''new''"] m t l
  show ?thesis by simp
qed

text \<open>
  With an empty begin tag the outer loop does not advance: \<open>indexOf\<close> finds the empty
  tag where the search starts, and the generator resumes at the same offset. On a
  document in which the end tag expression does not match, the scan never returns,
  and neither do \<open>mash\<close> and \<open>textIsMashed\<close>.
\<close>

theorem mash_empty_begin_tag_never_returns:
  "getMashInfo sha1_excerpt ''Unstructured text.'' '''' None ''<end (%fingerprint%)>'' = None \<and>
   mash sha1_excerpt ''Unstructured text.'' '''' ''x'' ''<end (%fingerprint%)>'' = None \<and>
   textIsMashed sha1_excerpt ''Unstructured text.'' '''' ''x'' ''<end (%fingerprint%)>'' = None"
proof -
  let ?D = "''Unstructured text.''"
  let ?re = "endTagRegExp ''<end (%fingerprint%)>''"
  have i: "0 \<le> length ?D" by simp
  have n: "endTagOccurrenceIterator ?re ?D 0 = None" by code_simp
  have "beginTagLoop sha1_excerpt ?D [] src ?re 0 sc = None" for src sc
    by (rule empty_begin_tag_diverges[OF i n])
  then show ?thesis by (simp add: getMashInfo_def mash_def textIsMashed_def Let_def)
qed

section \<open>An end tag with an upper-case fingerprint\<close>

lemma upper_hex_is_hex: "is_lower_hex_digit c \<Longrightarrow> is_hex_digit (upper_hex c)"
  by (auto simp: is_lower_hex_digit_def is_hex_digit_def upper_hex_def)

lemma endTagOccurrences_single:
  assumes "map index (endTagOccurrences re D j) = [k]"
  shows "\<exists>e. endTagOccurrences re D j = [e] \<and> endTagOccurrenceIterator re D j = Some e \<and>
             index e = k"
proof -
  from assms obtain e where l: "endTagOccurrences re D j = [e]" and k: "index e = k"
    by (cases "endTagOccurrences re D j") auto
  from l have "endTagOccurrenceIterator re D j = Some e"
    by (auto simp: endTagOccurrences_def split: option.splits)
  with l k show ?thesis by blast
qed

text \<open>
  C10, as the program has it. Let the digest of the payload be forty lower-case
  hexadecimal digits of which at least one is a letter, and \<open>U\<close> its upper-case
  rendering. The end tag expression matches the end tag materialised with \<open>U\<close> and
  captures \<open>U\<close>. In a document that reads begin tag, payload, end tag with \<open>U\<close>, these
  being its only begin tag occurrence and the only end tag occurrence after it, the
  scan (without a source text or with the payload as source text) returns the state
  fingerprint-invalid with the offsets of that pair, and the document is not detected
  as mashed for the payload.
\<close>

theorem uppercase_fingerprint_is_invalid:
  assumes "split_first ''%fingerprint%'' E = Some (pre, post)"
    and "B \<noteq> []"
    and "length (sha1_hex P) = 40" and "list_all is_lower_hex_digit (sha1_hex P)"
    and "U = map upper_hex (sha1_hex P)" and "U \<noteq> sha1_hex P"
    and "D = X @ B @ P @ pre @ U @ post @ Y"
    and "beginTagOccurrences D B = [\<lparr>index = length X, endIndex = length X + length B\<rparr>]"
    and "map index (endTagOccurrences (endTagRegExp E) D (length X + length B)) =
           [length X + length B + length P]"
    and "src = None \<or> src = Some P"
  shows "match_items (endTagRegExp E) (pre @ U @ post @ Y) = Some (pre @ U @ post, Some U) \<and>
         getMashInfo sha1_hex D B src E =
           Some (Inr \<lparr>state = FingerprintInvalid, beginTagIndex = Some (length X),
                      endOfBeginTagIndex = Some (length X + length B),
                      endTagIndex = Some (length X + length B + length P),
                      endOfEndTagIndex =
                        Some (length X + length B + length P +
                              (length pre + 40 + length post))\<rparr>) \<and>
         textIsMashed sha1_hex D B P E = Some (Inr False)"
proof -
  let ?re = "endTagRegExp E"
  let ?j = "length X + length B"
  let ?k = "length X + length B + length P"
  let ?b = "\<lparr>index = length X, endIndex = ?j\<rparr>"
  let ?sc0 = "\<lparr>firstBeginTagOccurrence = None, firstEndTagOccurrence = None,
               firstInvalidState = Unmashed\<rparr>"
  have sp: "split_first FINGERPRINT_PLACEHOLDER E = Some (pre, post)"
    using assms(1) by (simp add: FINGERPRINT_PLACEHOLDER_def)
  have lu: "length U = 40" using assms(3,5) by simp
  have hu: "list_all is_hex_digit U"
    using assms(4,5) by (auto simp: list_all_iff upper_hex_is_hex)
  have rec: "match_items ?re (pre @ U @ post @ Y) = Some (pre @ U @ post, Some U)"
    using lu hu by (simp add: endTagRegExp_match[OF sp])
  have E: "E \<noteq> []" using split_first_Some[OF sp] by (auto simp: FINGERPRINT_PLACEHOLDER_def)
  from endTagOccurrences_single[OF assms(9)] obtain e where
    es: "endTagOccurrences ?re D ?j = [e]" and it: "endTagOccurrenceIterator ?re D ?j = Some e"
    and ke: "index e = ?k" by blast
  have j: "?j \<le> length D" by (simp add: assms(7))
  note f = endTagOccurrenceIterator_Some[OF it j]
  have dk: "drop ?k D = pre @ U @ post @ Y" by (simp add: assms(7))
  from f(4) have "match_items ?re (pre @ U @ post @ Y) =
      Some (take (regexp_width ?re) (pre @ U @ post @ Y), fingerprint e)"
    by (simp add: ke dk)
  with rec have fe: "fingerprint e = Some U"
    and tw: "take (regexp_width ?re) (pre @ U @ post @ Y) = pre @ U @ post"
    by simp_all
  from match_items_width[OF rec] lu have w: "regexp_width ?re = length pre + 40 + length post"
    by simp
  have ee: "endIndex e = ?k + (length pre + 40 + length post)"
    using f(2) by (simp add: ke w)
  have pt: "potentialSourceText D ?b e = P"
    by (simp add: potentialSourceText_def substring_between ke assms(7))
  have inv: "\<not> pairValid sha1_hex D src' (?b, e)" for src'
    using assms(6) by (simp add: pairValid_def pt fe fingerprintInvalid_def fingerprint_of_def)
  have nt: "\<not> sourceTextTampered src' P" if "src' = None \<or> src' = Some P" for src'
    using that by (auto simp: sourceTextTampered_def)
  have fi: "fingerprintInvalid sha1_hex e P"
    using assms(6) by (simp add: fe fingerprintInvalid_def fingerprint_of_def)
  have scan: "beginTagScan sha1_hex D src' ?re (beginTagOccurrences D B) ?sc0 =
      Inr \<lparr>firstBeginTagOccurrence = Some ?b, firstEndTagOccurrence = Some e,
           firstInvalidState = FingerprintInvalid\<rparr>"
    if "src' = None \<or> src' = Some P" for src'
    using nt[OF that] fi
    by (simp add: assms(8) es inv pt grabFirstBegin_def grabFirstEnd_def grabFirstInvalid_def)
  have g: "getMashInfo sha1_hex D B src' E =
           Some (Inr \<lparr>state = FingerprintInvalid, beginTagIndex = Some (length X),
                      endOfBeginTagIndex = Some ?j, endTagIndex = Some ?k,
                      endOfEndTagIndex = Some (?k + (length pre + 40 + length post))\<rparr>)"
    if "src' = None \<or> src' = Some P" for src'
    by (simp add: getMashInfo_def Let_def getMashInfo_scan[OF assms(2) E] scan[OF that]
          createInfo_def ke ee)
  have "textIsMashed sha1_hex D B P E = Some (Inr False)"
    by (simp add: textIsMashed_def g)
  with rec g[OF assms(10)] show ?thesis by simp
qed

theorem uppercase_fingerprint_is_invalid_witness:
  "split_first ''%fingerprint%'' ''<e %fingerprint%>'' = Some (''<e '', ''>'') \<and>
   sha1_excerpt ''p'' = ''516b9783fca517eecbd1d064da2d165310b19759'' \<and>
   map upper_hex (sha1_excerpt ''p'') = ''516B9783FCA517EECBD1D064DA2D165310B19759'' \<and>
   beginTagOccurrences ''x<b>p<e 516B9783FCA517EECBD1D064DA2D165310B19759>y'' ''<b>'' =
     [\<lparr>index = 1, endIndex = 4\<rparr>] \<and>
   map index (endTagOccurrences (endTagRegExp ''<e %fingerprint%>'')
     ''x<b>p<e 516B9783FCA517EECBD1D064DA2D165310B19759>y'' 4) = [5] \<and>
   getMashInfo sha1_excerpt ''x<b>p<e 516B9783FCA517EECBD1D064DA2D165310B19759>y'' ''<b>''
     None ''<e %fingerprint%>'' =
     Some (Inr \<lparr>state = FingerprintInvalid, beginTagIndex = Some 1,
                endOfBeginTagIndex = Some 4, endTagIndex = Some 5,
                endOfEndTagIndex = Some 49\<rparr>) \<and>
   textIsMashed sha1_excerpt ''x<b>p<e 516B9783FCA517EECBD1D064DA2D165310B19759>y'' ''<b>''
     ''p'' ''<e %fingerprint%>'' = Some (Inr False)"
proof -
  let ?U = "''516B9783FCA517EECBD1D064DA2D165310B19759''"
  let ?D = "''x<b>p<e 516B9783FCA517EECBD1D064DA2D165310B19759>y''"
  let ?E = "''<e %fingerprint%>''"
  have h1: "split_first ''%fingerprint%'' ?E = Some (''<e '', ''>'')" by code_simp
  have h2: "''<b>'' \<noteq> []" by simp
  have d: "sha1_excerpt ''p'' = ''516b9783fca517eecbd1d064da2d165310b19759''" by code_simp
  have h3: "length (sha1_excerpt ''p'') = 40" by (simp add: d)
  have h4: "list_all is_lower_hex_digit (sha1_excerpt ''p'')" unfolding d by code_simp
  have h5: "?U = map upper_hex (sha1_excerpt ''p'')" unfolding d by code_simp
  have h6: "?U \<noteq> sha1_excerpt ''p''" by (simp add: d)
  have h7: "?D = ''x'' @ ''<b>'' @ ''p'' @ ''<e '' @ ?U @ ''>'' @ ''y''" by simp
  have h8: "beginTagOccurrences ?D ''<b>'' =
              [\<lparr>index = length ''x'', endIndex = length ''x'' + length ''<b>''\<rparr>]"
    by code_simp
  have h9: "map index (endTagOccurrences (endTagRegExp ?E) ?D (length ''x'' + length ''<b>'')) =
              [length ''x'' + length ''<b>'' + length ''p'']"
    by code_simp
  have h10: "(None :: string option) = None \<or> None = Some ''p''" by simp
  from uppercase_fingerprint_is_invalid[where sha1_hex = sha1_excerpt and P = "''p''"
         and X = "''x''" and Y = "''y''" and U = ?U,
         OF h1 h2 h3 h4 h5 h6 h7 h8 h9 h10]
  have r: "getMashInfo sha1_excerpt ?D ''<b>'' None ?E =
     Some (Inr \<lparr>state = FingerprintInvalid, beginTagIndex = Some 1,
                endOfBeginTagIndex = Some 4, endTagIndex = Some 5,
                endOfEndTagIndex = Some 49\<rparr>)"
    and t: "textIsMashed sha1_excerpt ?D ''<b>'' ''p'' ?E = Some (Inr False)"
    by simp_all
  have h8': "beginTagOccurrences ?D ''<b>'' = [\<lparr>index = 1, endIndex = 4\<rparr>]"
    by code_simp
  have h9': "map index (endTagOccurrences (endTagRegExp ?E) ?D 4) = [5]"
    by code_simp
  from r t h1 d h5[symmetric] h8' h9' show ?thesis by blast
qed

theorem uppercase_fingerprint_counterexample:
  "textIsMashed sha1_excerpt
     ''<b>p<e 516B9783FCA517EECBD1D064DA2D165310B19759><b>p<e 516b9783fca517eecbd1d064da2d165310b19759>''
     ''<b>'' ''p'' ''<e %fingerprint%>'' = Some (Inr True) \<and>
   getMashInfo sha1_excerpt
     ''<b>p<e 516B9783FCA517EECBD1D064DA2D165310B19759><b>p<e 516b9783fca517eecbd1d064da2d165310b19759>''
     ''<b>'' None ''<e %fingerprint%>'' =
     Some (Inr \<lparr>state = Mashed, beginTagIndex = Some 48, endOfBeginTagIndex = Some 51,
                endTagIndex = Some 52, endOfEndTagIndex = Some 96\<rparr>)"
  by code_simp

section \<open>Tag text in a payload\<close>

text \<open>
  A payload that reads like the literal part of the end tag can hide a valid block.
  With the end tag \<open>ab%fingerprint%\<close> and the payload \<open>ab\<close>, \<open>mash\<close> writes the
  block \<open><b>abab\<close> followed by the digest; the end tag expression then matches from
  the payload on (\<open>ab\<close>, then \<open>ab\<close> and 38 digits of the digest as the fingerprint), so
  the scan takes the payload to be empty and reports an invalid fingerprint.
\<close>

theorem tag_text_in_payload_counterexample:
  "mash sha1_excerpt '''' ''<b>'' ''ab'' ''ab%fingerprint%'' =
     Some (Inr ''<b>ababda23614e02469a0d7c7bd1bdab5c9c474b1904dc'') \<and>
   getMashInfo sha1_excerpt ''<b>ababda23614e02469a0d7c7bd1bdab5c9c474b1904dc'' ''<b>''
     None ''ab%fingerprint%'' =
     Some (Inr \<lparr>state = FingerprintInvalid, beginTagIndex = Some 0,
                endOfBeginTagIndex = Some 3, endTagIndex = Some 3,
                endOfEndTagIndex = Some 45\<rparr>) \<and>
   candidatePairs ''<b>ababda23614e02469a0d7c7bd1bdab5c9c474b1904dc'' ''<b>''
     (endTagRegExp ''ab%fingerprint%'') =
     [(\<lparr>index = 0, endIndex = 3\<rparr>,
       \<lparr>index = 3, endIndex = 45,
        fingerprint = Some ''abda23614e02469a0d7c7bd1bdab5c9c474b1904''\<rparr>)]"
  by code_simp

section \<open>Searches that agree on a prefix\<close>

lemma match_items_append:
  "regexp_width re \<le> length s \<Longrightarrow> match_items re (s @ t) = match_items re s"
proof (induction re s rule: match_items.induct)
  case (1 s)
  show ?case by simp
next
  case (2 c items s)
  show ?case
  proof (cases s)
    case Nil
    with "2.prems" show ?thesis by simp
  next
    case (Cons x xs)
    show ?thesis
    proof (cases "x = c")
      case True
      from "2.prems" Cons have "regexp_width items \<le> length xs" by simp
      from "2.IH"[OF Cons True this] show ?thesis by (simp add: Cons True)
    next
      case False
      then show ?thesis by (simp add: Cons)
    qed
  qed
next
  case (3 n items s)
  from "3.prems" have n: "n \<le> length s" and w: "regexp_width items \<le> length (drop n s)"
    by simp_all
  show ?case
  proof (cases "list_all is_hex_digit (take n s)")
    case True
    have c: "n \<le> length s \<and> list_all is_hex_digit (take n s)" using n True by simp
    from "3.IH"[OF c w] n True show ?thesis by simp
  next
    case False
    with n show ?thesis by simp
  qed
qed

lemma prefix_iff_take: "prefix xs ys \<longleftrightarrow> take (length xs) ys = xs"
  by (metis prefix_def append_eq_conv_conj take_is_prefix)

lemma prefix_drop_agree:
  assumes "take (j + length tag) s' = take (j + length tag) s"
  shows "prefix tag (drop j s') = prefix tag (drop j s)"
proof -
  have "take (length tag) (drop j s') = drop j (take (j + length tag) s')"
    by (simp add: drop_take)
  also have "\<dots> = drop j (take (j + length tag) s)" by (simp add: assms)
  also have "\<dots> = take (length tag) (drop j s)" by (simp add: drop_take)
  finally show ?thesis by (simp add: prefix_iff_take)
qed

lemma indexOf_first:
  assumes "p \<le> r" and "r + length tag \<le> length s" and "prefix tag (drop r s)"
    and "\<forall>j. p \<le> j \<and> j < r \<longrightarrow> \<not> prefix tag (drop j s)"
  shows "indexOf s tag p = Some r"
proof (cases "indexOf s tag p")
  case None
  from indexOf_None[OF None] assms(1,2) have "\<not> prefix tag (drop r s)" by simp
  with assms(3) show ?thesis by simp
next
  case (Some r')
  have p: "min p (length s) = p" using assms(1,2) by simp
  from indexOf_Some[OF Some] p have
    le: "p \<le> r'" and tk: "take (length tag) (drop r' s) = tag"
    and first: "\<forall>j. p \<le> j \<and> j < r' \<longrightarrow> \<not> prefix tag (drop j s)"
    by simp_all
  have pr: "prefix tag (drop r' s)" using tk by (simp add: prefix_iff_take)
  have "\<not> r' < r" using assms(4) le pr by blast
  moreover have "\<not> r < r'" using first assms(1,3) by blast
  ultimately show ?thesis using Some by simp
qed

lemma indexOf_agree:
  assumes "indexOf s tag p = Some r" and "p \<le> length s"
    and "take (r + length tag) s' = take (r + length tag) s"
  shows "indexOf s' tag p = Some r"
proof -
  have p: "min p (length s) = p" using assms(2) by simp
  from indexOf_Some[OF assms(1)] p have
    le: "p \<le> r" and len: "r + length tag \<le> length s"
    and tk: "take (length tag) (drop r s) = tag"
    and first: "\<forall>j. p \<le> j \<and> j < r \<longrightarrow> \<not> prefix tag (drop j s)"
    by simp_all
  have ag: "take (j + length tag) s' = take (j + length tag) s" if "j \<le> r" for j
  proof -
    have "take (j + length tag) s' = take (j + length tag) (take (r + length tag) s')"
      using that by (simp add: min_def)
    also have "\<dots> = take (j + length tag) (take (r + length tag) s)" by (simp add: assms(3))
    also have "\<dots> = take (j + length tag) s" using that by (simp add: min_def)
    finally show ?thesis .
  qed
  have "length (take (r + length tag) s') = length (take (r + length tag) s)"
    by (simp add: assms(3))
  then have len': "r + length tag \<le> length s'" using len by simp
  have "prefix tag (drop r s)" using tk by (simp add: prefix_iff_take)
  then have pr: "prefix tag (drop r s')"
    using prefix_drop_agree[OF ag, of r] by simp
  have "\<forall>j. p \<le> j \<and> j < r \<longrightarrow> \<not> prefix tag (drop j s')"
    using first by (simp add: prefix_drop_agree[OF ag])
  from indexOf_first[OF le len' pr this] show ?thesis .
qed







section \<open>The scan of a document that holds the new block\<close>

lemma endTagLoop_finds_block:
  assumes dr: "drop j0 R = P @ M @ Y"
    and mm: "match_items re M = Some (M, Some h)"
    and mne: "M \<noteq> []"
    and ns: "\<forall>s<length P. length P < s + length M \<longrightarrow>
               match_items re (drop s (P @ M)) = None"
    and eb: "endIndex b = j0"
    and src: "src = None \<or> src = Some P" and h: "h = sha1_hex P"
  shows "j0 \<le> i \<Longrightarrow> i \<le> j0 + length P \<Longrightarrow>
     \<exists>e. endTagLoop sha1_hex R src re b i sc =
            Some (Inl (createInfo Mashed (Some b) (Some e))) \<and>
         ((\<forall>s<length P. \<forall>m g. match_items re (drop s (P @ M)) = Some (m, g) \<longrightarrow>
              sourceTextTampered src (take s P) \<or> g \<noteq> Some (sha1_hex (take s P))) \<longrightarrow>
          e = \<lparr>index = j0 + length P, endIndex = j0 + length P + length M,
               fingerprint = Some h\<rparr>)"
proof (induction "j0 + length P - i" arbitrary: i sc rule: less_induct)
  case less
  let ?k = "j0 + length P"
  have w: "regexp_width re = length M" using match_items_width[OF mm] by simp
  have lenR: "length R - j0 = length P + length M + length Y"
    using arg_cong[OF dr, of length] by simp
  have mpos: "0 < length M" using mne by simp
  have kR: "?k \<le> length R" using lenR mpos by linarith
  have iR: "i \<le> length R" using less.prems(2) kR by simp
  have dk: "drop ?k R = M @ Y"
  proof -
    have "drop ?k R = drop (length P) (drop j0 R)" by (simp add: add.commute)
    then show ?thesis by (simp add: dr)
  qed
  have mk: "match_items re (drop ?k R) = Some (M, Some h)"
    using match_items_append[of re M Y] w mm by (simp add: dk)
  obtain e where it: "endTagOccurrenceIterator re R i = Some e"
  proof (cases "endTagOccurrenceIterator re R i")
    case None
    from endTagOccurrenceIterator_None[OF None less.prems(2) kR] mk show ?thesis by simp
  next
    case (Some e)
    then show ?thesis by (rule that)
  qed
  note f = endTagOccurrenceIterator_Some[OF it iR]
  have ek: "index e \<le> ?k"
  proof (rule ccontr)
    assume "\<not> index e \<le> ?k"
    then have "i \<le> ?k \<and> ?k < index e" using less.prems(2) by simp
    with f(5) have "match_items re (drop ?k R) = None" by blast
    with mk show False by simp
  qed
  have ee: "endIndex e = index e + length M" using f(2) w by simp
  have je: "j0 \<le> index e" using f(1) less.prems(1) by simp
  let ?text = "potentialSourceText R b e"
  have pt: "?text = take (index e - j0) (P @ M @ Y)"
    using je by (simp add: potentialSourceText_def eb substring_between dr)
  show ?case
  proof (cases "index e = ?k")
    case True
    from f(4) mk have fe: "fingerprint e = Some h" by (simp add: True)
    have e: "e = \<lparr>index = ?k, endIndex = ?k + length M, fingerprint = Some h\<rparr>"
      using True ee fe by (cases e) simp
    have tx: "?text = P" by (simp add: pt True)
    have ok: "\<not> sourceTextTampered src P" "\<not> fingerprintInvalid sha1_hex e P"
      using src fe h
      by (auto simp: sourceTextTampered_def fingerprintInvalid_def fingerprint_of_def)
    have "endTagLoop sha1_hex R src re b i sc =
            Some (Inl (createInfo Mashed (Some b) (Some e)))"
      by (subst endTagLoop.simps) (simp add: it tx ok Let_def)
    with e show ?thesis by blast
  next
    case False
    define s where "s = index e - j0"
    have s: "s < length P" "index e = j0 + s" using False ek je by (simp_all add: s_def)
    have tx: "?text = take s P" using s(1) by (simp add: pt s_def)
    have "drop (index e) R = drop s (drop j0 R)" by (simp add: s(2) add.commute)
    also have "\<dots> = drop s (P @ M) @ Y" using s(1) by (simp add: dr)
    finally have de: "drop (index e) R = drop s (P @ M) @ Y" .
    have "regexp_width re \<le> length (drop s (P @ M))" using w s(1) by simp
    from match_items_append[OF this, of Y] f(4) have
      ms: "match_items re (drop s (P @ M)) =
             Some (take (regexp_width re) (drop (index e) R), fingerprint e)"
      by (simp add: de)
    with ns s(1) have fit: "s + length M \<le> length P" by force
    have adv: "j0 + length P - endIndex e < j0 + length P - i"
      "j0 \<le> endIndex e" "endIndex e \<le> j0 + length P"
      using fit ee s(2) f(1) mpos je by linarith+
    let ?t = "sourceTextTampered src (take s P)"
    let ?v = "fingerprintInvalid sha1_hex e (take s P)"
    show ?thesis
    proof (cases "\<not> ?t \<and> \<not> ?v")
      case True
      have r: "endTagLoop sha1_hex R src re b i sc =
                 Some (Inl (createInfo Mashed (Some b) (Some e)))"
        using True by (subst endTagLoop.simps) (simp add: it tx Let_def)
      from True have "fingerprint e = Some (sha1_hex (take s P))"
        by (simp add: fingerprintInvalid_def fingerprint_of_def)
      with True ms s(1) have
        "\<not> (\<forall>s<length P. \<forall>m g. match_items re (drop s (P @ M)) = Some (m, g) \<longrightarrow>
              sourceTextTampered src (take s P) \<or> g \<noteq> Some (sha1_hex (take s P)))"
        by blast
      with r show ?thesis by blast
    next
      case False
      then have c: "(\<not> ?t \<and> \<not> ?v) = False" by simp
      have "endTagLoop sha1_hex R src re b i sc =
              endTagLoop sha1_hex R src re b (endIndex e)
                (grabFirstInvalid ?t ?v (grabFirstEnd e sc))"
        by (subst endTagLoop.simps) (simp add: it tx Let_def c)
      with less.hyps[OF adv, of "grabFirstInvalid ?t ?v (grabFirstEnd e sc)"]
      show ?thesis by simp
    qed
  qed
qed

lemma straddle_range:
  "(s \<in> set [Suc (length P) - length M ..< length P]) =
     (s < length P \<and> length P < s + length M)"
  by (simp only: set_upt atLeastLessThan_iff) arith

lemma endTagStraddles_None:
  "\<not> endTagStraddles re P M \<Longrightarrow> s < length P \<Longrightarrow> length P < s + length M \<Longrightarrow>
     match_items re (drop s (P @ M)) = None"
  using straddle_range[of s P M] unfolding endTagStraddles_def by blast

lemma endTagCertifies_iff:
  "\<not> endTagCertifies sha1_hex re P M \<longleftrightarrow>
     (\<forall>s<length P. \<forall>m g. match_items re (drop s (P @ M)) = Some (m, g) \<longrightarrow>
        sourceTextTampered None (take s P) \<or> g \<noteq> Some (sha1_hex (take s P)))"
proof -
  have a: "(s \<in> set [0 ..< length P]) = (s < length P)" for s
    by simp
  have b: "(case match_items re (drop s (P @ M)) of
              Some (m, Some h) \<Rightarrow> h = sha1_hex (take s P) | _ \<Rightarrow> False) =
           (\<exists>m. match_items re (drop s (P @ M)) = Some (m, Some (sha1_hex (take s P))))" for s
    by (cases "match_items re (drop s (P @ M))") (auto split: option.splits)
  show ?thesis
    unfolding endTagCertifies_def Bex_def a b sourceTextTampered_def by auto
qed

lemma materialized_matches:
  assumes "split_first FINGERPRINT_PLACEHOLDER E = Some (pre, post)"
    and "length h = 40" and "list_all is_hex_digit h"
  shows "match_items (endTagRegExp E) (pre @ h @ post) = Some (pre @ h @ post, Some h)"
  using assms(2,3) by (simp add: endTagRegExp_match[OF assms(1)])

lemma materialized_replace:
  assumes "split_first FINGERPRINT_PLACEHOLDER E = Some (pre, post)"
  shows "replace_first FINGERPRINT_PLACEHOLDER h E = pre @ h @ post"
  by (simp add: replace_first_def assms)


lemma block_scanned_first:
  assumes sp: "split_first FINGERPRINT_PLACEHOLDER E = Some (pre, post)"
    and dg: "length (sha1_hex P) = 40" "list_all is_hex_digit (sha1_hex P)"
    and M: "M = pre @ sha1_hex P @ post"
    and ns: "\<not> endTagStraddles (endTagRegExp E) P M"
    and R: "R = X @ B @ P @ M @ Y"
    and first: "indexOf R B 0 = Some (length X)"
    and src: "src = Some P \<or> (src = None \<and> \<not> endTagCertifies sha1_hex (endTagRegExp E) P M)"
  shows "getMashInfo sha1_hex R B src E =
     Some (Inr \<lparr>state = Mashed, beginTagIndex = Some (length X),
                endOfBeginTagIndex = Some (length X + length B),
                endTagIndex = Some (length X + length B + length P),
                endOfEndTagIndex = Some (length X + length B + length P + length M)\<rparr>)"
proof -
  let ?re = "endTagRegExp E"
  let ?j = "length X + length B"
  let ?b = "\<lparr>index = length X, endIndex = ?j\<rparr>"
  let ?e = "\<lparr>index = ?j + length P, endIndex = ?j + length P + length M,
             fingerprint = Some (sha1_hex P)\<rparr>"
  have mm: "match_items ?re M = Some (M, Some (sha1_hex P))"
    unfolding M by (rule materialized_matches[OF sp dg])
  have mne: "M \<noteq> []" using dg(1) by (auto simp: M)
  have dr: "drop ?j R = P @ M @ Y" by (simp add: R)
  have ns': "\<forall>s<length P. length P < s + length M \<longrightarrow>
               match_items ?re (drop s (P @ M)) = None"
    using endTagStraddles_None[OF ns] by blast
  have src': "src = None \<or> src = Some P" using src by blast
  have inv: "\<forall>s<length P. \<forall>m g. match_items ?re (drop s (P @ M)) = Some (m, g) \<longrightarrow>
        sourceTextTampered src (take s P) \<or> g \<noteq> Some (sha1_hex (take s P))"
  proof (rule disjE[OF src])
    assume s: "src = Some P"
    have "P \<noteq> take s P" if "s < length P" for s
      using that by (metis length_take min.absorb4 nat_neq_iff)
    then show ?thesis by (simp add: s sourceTextTampered_def)
  next
    assume "src = None \<and> \<not> endTagCertifies sha1_hex ?re P M"
    then show ?thesis using endTagCertifies_iff[of sha1_hex ?re P M] by simp
  qed
  have itb: "beginTagOccurrenceIterator R B 0 = Some ?b"
    using first by (simp add: beginTagOccurrenceIterator_def)
  have inner: "endTagLoop sha1_hex R src ?re ?b ?j sc =
                 Some (Inl (createInfo Mashed (Some ?b) (Some ?e)))" for sc
    using endTagLoop_finds_block[where sha1_hex = sha1_hex and P = P and b = ?b
          and i = ?j and sc = sc,
          OF dr mm mne ns' _ src' refl] inv
    by auto
  have outer: "beginTagLoop sha1_hex R B src ?re 0 sc =
                 Some (Inl (createInfo Mashed (Some ?b) (Some ?e)))" for sc
    by (subst beginTagLoop.simps) (simp add: itb inner)
  show ?thesis by (simp add: getMashInfo_def Let_def outer createInfo_def)
qed

section \<open>Where the merge writes the new block\<close>












section \<open>The result of the merge\<close>


lemma placeholder_split:
  assumes "split_first ''%fingerprint%'' E \<noteq> None"
  shows "\<exists>pre post. split_first FINGERPRINT_PLACEHOLDER E = Some (pre, post) \<and> E \<noteq> [] \<and>
           replace_first ''%fingerprint%'' h E = pre @ h @ post"
proof -
  from assms obtain pre post where sp: "split_first FINGERPRINT_PLACEHOLDER E = Some (pre, post)"
    by (auto simp: FINGERPRINT_PLACEHOLDER_def)
  have "E \<noteq> []" using split_first_Some[OF sp] by (auto simp: FINGERPRINT_PLACEHOLDER_def)
  moreover have "replace_first ''%fingerprint%'' h E = pre @ h @ post"
    using materialized_replace[OF sp, of h] by (simp add: FINGERPRINT_PLACEHOLDER_def)
  ultimately show ?thesis using sp by blast
qed




section \<open>Documents without any tag\<close>

text \<open>
  C5, as the program has it. When the document has no begin tag and the end tag
  expression does not match in it, it is not detected as mashed for any payload, and
  \<open>mash\<close> appends the new block at its very end. That result is detected as mashed
  for the payload when the end tag template contains the placeholder, the digest of
  the payload is forty hexadecimal digits, no begin tag arises across the border
  between the document and the appended begin tag, and the end tag expression does
  not match across the border between the payload and its materialised end tag.
\<close>

theorem mash_appends_to_clean_document:
  assumes "indexOf D B 0 = None"
    and "regexp_exec (endTagRegExp E) D = None"
    and "R = D @ B @ P @ replace_first ''%fingerprint%'' (sha1_hex P) E"
  shows "textIsMashed sha1_hex D B P' E = Some (Inr False) \<and>
         mash sha1_hex D B P E = Some (Inr R) \<and>
         (split_first ''%fingerprint%'' E \<noteq> None \<and>
          length (sha1_hex P) = 40 \<and> list_all is_hex_digit (sha1_hex P) \<and>
          indexOf (D @ B) B 0 = Some (length D) \<and>
          \<not> endTagStraddles (endTagRegExp E) P
              (replace_first ''%fingerprint%'' (sha1_hex P) E) \<longrightarrow>
          textIsMashed sha1_hex R B P E = Some (Inr True))"
proof -
  let ?M = "replace_first ''%fingerprint%'' (sha1_hex P) E"
  have it: "endTagOccurrenceIterator (endTagRegExp E) D 0 = None"
    using assms(2) by (simp add: endTagOccurrenceIterator_def substring_drop)
  have g: "getMashInfo sha1_hex D B src E = Some (Inr (createInfo Unmashed None None))" for src
    by (simp add: getMashInfo_no_begin_tag[OF assms(1)] it)
  have a: "textIsMashed sha1_hex D B P' E = Some (Inr False)"
    by (simp add: textIsMashed_def g createInfo_def)
  have b: "mash sha1_hex D B P E = Some (Inr R)"
    by (simp add: mash_def g createInfo_def appendText_def insertText_def substring_take
          substring_drop fingerprint_of_def FINGERPRINT_PLACEHOLDER_def assms(3))
  have c: "textIsMashed sha1_hex R B P E = Some (Inr True)"
    if ph: "split_first ''%fingerprint%'' E \<noteq> None"
      and dg: "length (sha1_hex P) = 40" "list_all is_hex_digit (sha1_hex P)"
      and bd: "indexOf (D @ B) B 0 = Some (length D)"
      and ns: "\<not> endTagStraddles (endTagRegExp E) P ?M"
  proof -
    from placeholder_split[OF ph, of "sha1_hex P"] obtain pre post where
      sp: "split_first FINGERPRINT_PLACEHOLDER E = Some (pre, post)"
      and M: "?M = pre @ sha1_hex P @ post"
      by auto
    have R: "R = D @ B @ P @ ?M @ []" by (simp add: assms(3))
    have "take (length D + length B) R = take (length D + length B) (D @ B)"
      by (simp add: assms(3))
    from indexOf_agree[OF bd _ this] have first: "indexOf R B 0 = Some (length D)" by simp
    have src: "Some P = Some P \<or>
               (Some P = None \<and> \<not> endTagCertifies sha1_hex (endTagRegExp E) P ?M)"
      by simp
    note s = block_scanned_first[where sha1_hex = sha1_hex and P = P and src = "Some P",
               OF sp dg M ns R first src]
    show ?thesis by (simp add: textIsMashed_def s)
  qed
  from a b c show ?thesis by blast
qed

theorem mash_appends_to_clean_document_witness:
  "indexOf ''This is a placeholder so that we can test insertions/updates.'' ''<masher>'' 0 = None \<and>
   regexp_exec (endTagRegExp ''</masher (%fingerprint%)>'')
     ''This is a placeholder so that we can test insertions/updates.'' = None \<and>
   textIsMashed sha1_excerpt ''This is a placeholder so that we can test insertions/updates.''
     ''<masher>'' ''Text to be inserted/updated.'' ''</masher (%fingerprint%)>'' =
     Some (Inr False) \<and>
   mash sha1_excerpt ''This is a placeholder so that we can test insertions/updates.''
     ''<masher>''
     ''<masher>Text to be inserted/updated.</masher (0000000000000000000000000000000000000000)>''
     ''</masher (%fingerprint%)>'' =
     Some (Inr ''This is a placeholder so that we can test insertions/updates.<masher><masher>Text to be inserted/updated.</masher (0000000000000000000000000000000000000000)></masher (1a986923887fedd664be09bab30f28d0d2f42487)>'') \<and>
   textIsMashed sha1_excerpt
     ''This is a placeholder so that we can test insertions/updates.<masher><masher>Text to be inserted/updated.</masher (0000000000000000000000000000000000000000)></masher (1a986923887fedd664be09bab30f28d0d2f42487)>''
     ''<masher>''
     ''<masher>Text to be inserted/updated.</masher (0000000000000000000000000000000000000000)>''
     ''</masher (%fingerprint%)>'' = Some (Inr True)"
proof -
  let ?D = "''This is a placeholder so that we can test insertions/updates.''"
  let ?B = "''<masher>''"
  let ?P = "''<masher>Text to be inserted/updated.</masher (0000000000000000000000000000000000000000)>''"
  let ?E = "''</masher (%fingerprint%)>''"
  let ?R = "''This is a placeholder so that we can test insertions/updates.<masher><masher>Text to be inserted/updated.</masher (0000000000000000000000000000000000000000)></masher (1a986923887fedd664be09bab30f28d0d2f42487)>''"
  have h1: "indexOf ?D ?B 0 = None" by code_simp
  have h2: "regexp_exec (endTagRegExp ?E) ?D = None" by code_simp
  have h3: "?R = ?D @ ?B @ ?P @ replace_first ''%fingerprint%'' (sha1_excerpt ?P) ?E"
    by code_simp
  have p1: "split_first ''%fingerprint%'' ?E \<noteq> None" by code_simp
  have p2: "length (sha1_excerpt ?P) = 40" by code_simp
  have p3: "list_all is_hex_digit (sha1_excerpt ?P)" by code_simp
  have p4: "indexOf (?D @ ?B) ?B 0 = Some (length ?D)" by code_simp
  have p5: "\<not> endTagStraddles (endTagRegExp ?E) ?P
               (replace_first ''%fingerprint%'' (sha1_excerpt ?P) ?E)"
    by code_simp
  from mash_appends_to_clean_document[where sha1_hex = sha1_excerpt and P = ?P
         and P' = "''Text to be inserted/updated.''", OF h1 h2 h3] p1 p2 p3 p4 p5 h1 h2
  show ?thesis by blast
qed

text \<open>
  Three documents without any tag whose result is not detected: a begin tag arises
  across the border of the document (\<open>a\<close> followed by the begin tag \<open>aa\<close>); the end
  tag expression matches from the payload on (end tag template \<open>%fingerprint%\<close>,
  payload \<open>b\<close>); the end tag template has no placeholder, so that no end tag carries
  a fingerprint.
\<close>

theorem mash_appends_to_clean_document_counterexample:
  "indexOf ''a'' ''aa'' 0 = None \<and>
   regexp_exec (endTagRegExp ''<%fingerprint%>'') ''a'' = None \<and>
   indexOf (''a'' @ ''aa'') ''aa'' 0 = Some 0 \<and>
   mash sha1_excerpt ''a'' ''aa'' ''x'' ''<%fingerprint%>'' =
     Some (Inr ''aaax<11f6ad8ec52a2984abaafd7c3b516503785c2072>'') \<and>
   textIsMashed sha1_excerpt ''aaax<11f6ad8ec52a2984abaafd7c3b516503785c2072>''
     ''aa'' ''x'' ''<%fingerprint%>'' = Some (Inr False) \<and>
   indexOf ''x'' ''<t>'' 0 = None \<and>
   regexp_exec (endTagRegExp ''%fingerprint%'') ''x'' = None \<and>
   endTagStraddles (endTagRegExp ''%fingerprint%'') ''b''
     ''e9d71f5ee7c92d6dc9e92ffdad17b8bd49418f98'' \<and>
   mash sha1_excerpt ''x'' ''<t>'' ''b'' ''%fingerprint%'' =
     Some (Inr ''x<t>be9d71f5ee7c92d6dc9e92ffdad17b8bd49418f98'') \<and>
   textIsMashed sha1_excerpt ''x<t>be9d71f5ee7c92d6dc9e92ffdad17b8bd49418f98''
     ''<t>'' ''b'' ''%fingerprint%'' = Some (Inr False) \<and>
   indexOf ''x'' ''<b>'' 0 = None \<and>
   regexp_exec (endTagRegExp ''<end>'') ''x'' = None \<and>
   split_first ''%fingerprint%'' ''<end>'' = None \<and>
   mash sha1_excerpt ''x'' ''<b>'' ''p'' ''<end>'' = Some (Inr ''x<b>p<end>'') \<and>
   textIsMashed sha1_excerpt ''x<b>p<end>'' ''<b>'' ''p'' ''<end>'' = Some (Inr False)"
  by code_simp

end
